theory Spec2Isabelle
  imports Main "HOL-Library.Word"
begin

unbundle bit_operations_syntax

section \<open>The NVS decoder of esp32-nvs2csv.py\<close>

text \<open>
  The program reads a raw NVS partition, decodes every page whose header says Active or
  Full, and writes one CSV line per written and/or erased entry. The model follows the
  source function by function. What Python does beyond returning a value is explicit:
  \<^item> an exception is a value of type \<open>error\<close> (\<open>Inl\<close> of a sum);
  \<^item> the class attribute \<open>NVSEntry.namespaces\<close> and the log of the messages passed to
    \<open>warnings.warn\<close> form the record \<open>world\<close>, passed in and returned;
  \<^item> the \<open>while\<close> loop of \<open>NVSPage.__init__\<close> may run forever, so it is a partial
    function into \<open>option\<close>: \<open>None\<close> means that the loop does not return.
\<close>

subsection \<open>Bytes, slices and struct.unpack\<close>

type_synonym byte = "8 word"

datatype error = StructError | ValueError | UnicodeDecodeError | KeyError | AttributeError

text \<open>Python's \<open>xs[a:b]\<close> for \<open>0 \<le> a \<le> b\<close>: the slice is cut at the end of the list.\<close>

definition slice :: "'a list \<Rightarrow> nat \<Rightarrow> nat \<Rightarrow> 'a list" where
  "slice xs a b = take (b - a) (drop a xs)"

text \<open>An unsigned little-endian field of \<open>struct.unpack\<close> (\<open><B\<close>, \<open><H\<close>, \<open><I\<close>, \<open><Q\<close>).\<close>

fun le_uint :: "byte list \<Rightarrow> nat" where
  "le_uint [] = 0"
| "le_uint (b # bs) = unat b + 256 * le_uint bs"

text \<open>A signed little-endian field (\<open><b\<close>, \<open><h\<close>, \<open><i\<close>, \<open><q\<close>): two's complement.\<close>

definition le_sint :: "byte list \<Rightarrow> int" where
  "le_sint bs =
     (let u = int (le_uint bs); m = 2 ^ (8 * length bs)
      in if m \<le> 2 * u then u - m else u)"

text \<open>
  \<open>struct.unpack(fmt, buf)\<close> raises \<open>struct.error\<close> unless \<open>buf\<close> has exactly the
  size of \<open>fmt\<close>. The callers slice first, so the buffer is too short or exact.
\<close>

definition unpack_check :: "nat \<Rightarrow> byte list \<Rightarrow> error + byte list" where
  "unpack_check n buf = (if length buf = n then Inr buf else Inl StructError)"

subsection \<open>Python strings\<close>

text \<open>
  A Python \<open>str\<close> is represented by its UTF-8 encoding, a \<open>string\<close> of 8-bit
  characters. \<open>bytes.decode('utf-8')\<close> is strict: it raises \<open>UnicodeDecodeError\<close> unless
  the bytes are well-formed UTF-8 (no overlong forms, no surrogates, nothing above
  U+10FFFF), and then the text it returns has the same encoding as its input.
\<close>

definition byte_char :: "byte \<Rightarrow> char" where
  "byte_char b = char_of (unat b)"

definition is_cont :: "byte \<Rightarrow> bool" where
  "is_cont b = (128 \<le> unat b \<and> unat b \<le> 191)"

fun utf8_valid :: "byte list \<Rightarrow> bool" where
  "utf8_valid [] = True"
| "utf8_valid (b0 # bs) =
     (let c = unat b0 in
      if c < 128 then utf8_valid bs
      else if 194 \<le> c \<and> c \<le> 223 then
        (case bs of
           b1 # r \<Rightarrow> is_cont b1 \<and> utf8_valid r
         | _ \<Rightarrow> False)
      else if 224 \<le> c \<and> c \<le> 239 then
        (case bs of
           b1 # b2 # r \<Rightarrow>
             (if c = 224 then 160 \<le> unat b1 \<and> unat b1 \<le> 191
              else if c = 237 then 128 \<le> unat b1 \<and> unat b1 \<le> 159
              else is_cont b1)
             \<and> is_cont b2 \<and> utf8_valid r
         | _ \<Rightarrow> False)
      else if 240 \<le> c \<and> c \<le> 244 then
        (case bs of
           b1 # b2 # b3 # r \<Rightarrow>
             (if c = 240 then 144 \<le> unat b1 \<and> unat b1 \<le> 191
              else if c = 244 then 128 \<le> unat b1 \<and> unat b1 \<le> 143
              else is_cont b1)
             \<and> is_cont b2 \<and> is_cont b3 \<and> utf8_valid r
         | _ \<Rightarrow> False)
      else False)"

definition decode_utf8 :: "byte list \<Rightarrow> error + string" where
  "decode_utf8 bs = (if utf8_valid bs then Inr (map byte_char bs) else Inl UnicodeDecodeError)"

text \<open>\<open>bytes.rstrip(b'\x00')\<close>: drop the trailing zero bytes.\<close>

definition rstrip0 :: "byte list \<Rightarrow> byte list" where
  "rstrip0 bs = rev (dropWhile (\<lambda>b. b = 0) (rev bs))"

text \<open>\<open>bytes.hex()\<close>: two lowercase hexadecimal digits per byte.\<close>

definition hexdigit :: "nat \<Rightarrow> char" where
  "hexdigit n = ''0123456789abcdef'' ! (n mod 16)"

definition hex :: "byte list \<Rightarrow> string" where
  "hex bs = concat (map (\<lambda>b. [hexdigit (unat b div 16), hexdigit (unat b)]) bs)"

text \<open>\<open>str(n)\<close> of a Python integer: decimal, with a minus sign when negative.\<close>

fun str_nat :: "nat \<Rightarrow> string" where
  "str_nat n = (if n < 10 then [hexdigit n] else str_nat (n div 10) @ [hexdigit (n mod 10)])"

definition str_int :: "int \<Rightarrow> string" where
  "str_int i = (if i < 0 then CHR ''-'' # str_nat (nat (- i)) else str_nat (nat i))"

subsection \<open>Enumerations and values\<close>

text \<open>
  \<open>NVSEntryState\<close>: the bitmap yields plain integers 0..3, which the source compares with
  the enumeration's members; 1 is not a member.
\<close>

definition Erased :: nat where "Erased = 0"
definition Written :: nat where "Written = 2"
definition Empty :: nat where "Empty = 3"

text \<open>\<open>NVSEntryState(s).name\<close> raises \<open>ValueError\<close> when \<open>s\<close> is not a member.\<close>

definition NVSEntryState_name :: "nat \<Rightarrow> error + string" where
  "NVSEntryState_name s =
     (if s = Erased then Inr ''Erased''
      else if s = Written then Inr ''Written''
      else if s = Empty then Inr ''Empty''
      else Inl ValueError)"

text \<open>\<open>NVSPageState\<close>: the two states that \<open>NVSPage.__init__\<close> tests for.\<close>

definition Full :: nat where "Full = 0xfffffffc"
definition Active :: nat where "Active = 0xfffffffe"

datatype NVSDataType =
  uint8_t | uint16_t | uint32_t | uint64_t
| int8_t | int16_t | int32_t | int64_t
| string_t | blob_data | blob_index

text \<open>\<open>NVSDataType(tag)\<close> raises \<open>ValueError\<close> when \<open>tag\<close> is not a member.\<close>

definition NVSDataType_of :: "nat \<Rightarrow> error + NVSDataType" where
  "NVSDataType_of tag =
     (if tag = 0x01 then Inr uint8_t
      else if tag = 0x02 then Inr uint16_t
      else if tag = 0x04 then Inr uint32_t
      else if tag = 0x08 then Inr uint64_t
      else if tag = 0x11 then Inr int8_t
      else if tag = 0x12 then Inr int16_t
      else if tag = 0x14 then Inr int32_t
      else if tag = 0x18 then Inr int64_t
      else if tag = 0x21 then Inr string_t
      else if tag = 0x42 then Inr blob_data
      else if tag = 0x48 then Inr blob_index
      else Inl ValueError)"

fun NVSDataType_name :: "NVSDataType \<Rightarrow> string" where
  "NVSDataType_name uint8_t = ''uint8_t''"
| "NVSDataType_name uint16_t = ''uint16_t''"
| "NVSDataType_name uint32_t = ''uint32_t''"
| "NVSDataType_name uint64_t = ''uint64_t''"
| "NVSDataType_name int8_t = ''int8_t''"
| "NVSDataType_name int16_t = ''int16_t''"
| "NVSDataType_name int32_t = ''int32_t''"
| "NVSDataType_name int64_t = ''int64_t''"
| "NVSDataType_name string_t = ''string''"
| "NVSDataType_name blob_data = ''blob_data''"
| "NVSDataType_name blob_index = ''blob_index''"

text \<open>The value of an entry: \<open>None\<close>, an integer or a \<open>str\<close>.\<close>

datatype pyvalue = PyNone | PyInt int | PyStr string

fun str_value :: "pyvalue \<Rightarrow> string" where
  "str_value PyNone = ''None''"
| "str_value (PyInt i) = str_int i"
| "str_value (PyStr s) = s"

subsection \<open>The state outside the objects\<close>

text \<open>
  \<open>namespaces\<close> is the class attribute \<open>NVSEntry.namespaces\<close>, a dictionary keyed by
  whatever \<open>self.value\<close> holds when an entry of namespace 0 is decoded. \<open>warnings\<close>
  collects the messages of the calls of \<open>warnings.warn\<close> that are carried out.
\<close>

record world =
  namespaces :: "pyvalue \<rightharpoonup> string"
  warnings :: "string list"

text \<open>The state of a fresh interpreter: line 67 of the source.\<close>

definition world0 :: world where
  "world0 = \<lparr>namespaces = [PyInt 0 \<mapsto> ''Namespace''], warnings = []\<rparr>"

subsection \<open>NVSEntry\<close>

text \<open>
  The attributes of the class, prefixed with \<open>e_\<close> (several of the source's names are
  taken in HOL, and \<open>NVSPage\<close> has attributes of the same names).
\<close>

record NVSEntry =
  e_ns :: nat
  e_dataType :: NVSDataType
  e_span :: nat
  e_chunkIndex :: nat
  e_crc :: nat
  e_dataCrc :: nat
  e_size :: nat
  e_key :: string
  e_value :: pyvalue
  e_state :: nat

text \<open>
  Lines 108 to 155: size, value and dataCrc from the last eight bytes of the slot. Each
  \<open>struct.unpack\<close> here reads a slice of \<open>data\<close>, which is shorter than eight bytes when the
  slot is cut short. The \<open>case _\<close> branch of the source cannot be reached: the tag has
  been through \<open>NVSDataType(...)\<close>, which raises for every tag outside the enumeration.
\<close>

fun parse_data :: "NVSDataType \<Rightarrow> byte list \<Rightarrow> error + nat \<times> pyvalue \<times> nat" where
  "parse_data uint8_t data =
     (case unpack_check 1 (slice data 0 1) of Inl x \<Rightarrow> Inl x
      | Inr b \<Rightarrow> Inr (1, PyInt (int (le_uint b)), 0))"
| "parse_data uint16_t data =
     (case unpack_check 2 (slice data 0 2) of Inl x \<Rightarrow> Inl x
      | Inr b \<Rightarrow> Inr (2, PyInt (int (le_uint b)), 0))"
| "parse_data uint32_t data =
     (case unpack_check 4 (slice data 0 4) of Inl x \<Rightarrow> Inl x
      | Inr b \<Rightarrow> Inr (4, PyInt (int (le_uint b)), 0))"
| "parse_data uint64_t data =
     (case unpack_check 8 (slice data 0 8) of Inl x \<Rightarrow> Inl x
      | Inr b \<Rightarrow> Inr (8, PyInt (int (le_uint b)), 0))"
| "parse_data int8_t data =
     (case unpack_check 1 (slice data 0 1) of Inl x \<Rightarrow> Inl x
      | Inr b \<Rightarrow> Inr (1, PyInt (le_sint b), 0))"
| "parse_data int16_t data =
     (case unpack_check 2 (slice data 0 2) of Inl x \<Rightarrow> Inl x
      | Inr b \<Rightarrow> Inr (2, PyInt (le_sint b), 0))"
| "parse_data int32_t data =
     (case unpack_check 4 (slice data 0 4) of Inl x \<Rightarrow> Inl x
      | Inr b \<Rightarrow> Inr (4, PyInt (le_sint b), 0))"
| "parse_data int64_t data =
     (case unpack_check 8 (slice data 0 8) of Inl x \<Rightarrow> Inl x
      | Inr b \<Rightarrow> Inr (8, PyInt (le_sint b), 0))"
| "parse_data string_t data =
     (case unpack_check 8 (slice data 0 8) of Inl x \<Rightarrow> Inl x
      | Inr b \<Rightarrow> Inr (le_uint (slice b 0 2), PyNone, le_uint (slice b 4 8)))"
| "parse_data blob_data data =
     (case unpack_check 8 (slice data 0 8) of Inl x \<Rightarrow> Inl x
      | Inr b \<Rightarrow> Inr (le_uint (slice b 0 2), PyNone, le_uint (slice b 4 8)))"
| "parse_data blob_index data =
     (case unpack_check 6 (slice data 0 6) of Inl x \<Rightarrow> Inl x
      | Inr b \<Rightarrow> Inr (le_uint (slice b 0 4), PyInt (int (le_uint (slice b 4 6))), 0))"

text \<open>
  \<open>NVSEntry.__init__\<close>. Every point that can raise comes before the one statement that
  changes \<open>NVSEntry.namespaces\<close>, so an exception leaves the world as it was.
\<close>

definition NVSEntry_init :: "byte list \<Rightarrow> nat \<Rightarrow> world \<Rightarrow> (error + NVSEntry) \<times> world" where
  "NVSEntry_init entryData state w =
     (case unpack_check 24 (slice entryData 0 24) of
        Inl x \<Rightarrow> (Inl x, w)
      | Inr h \<Rightarrow>
          let data = slice entryData 24 32 in
          (case NVSDataType_of (unat (h ! 1)) of
             Inl x \<Rightarrow> (Inl x, w)
           | Inr dt \<Rightarrow>
               (case decode_utf8 (rstrip0 (slice h 8 24)) of
                  Inl x \<Rightarrow> (Inl x, w)
                | Inr k \<Rightarrow>
                    let e = \<lparr>e_ns = unat (h ! 0), e_dataType = dt, e_span = unat (h ! 2),
                             e_chunkIndex = unat (h ! 3), e_crc = le_uint (slice h 4 8),
                             e_dataCrc = 0, e_size = 0, e_key = k, e_value = PyNone,
                             e_state = state\<rparr>
                    in if state \<noteq> Empty then
                         (case parse_data dt data of
                            Inl x \<Rightarrow> (Inl x, w)
                          | Inr (sz, v, dcrc) \<Rightarrow>
                              let e' = e\<lparr>e_size := sz, e_value := v, e_dataCrc := dcrc\<rparr>
                              in if e_ns e' = 0
                                 then (Inr e', w\<lparr>namespaces := (namespaces w)(v \<mapsto> k)\<rparr>)
                                 else (Inr e', w))
                       else (Inr e, w))))"

text \<open>
  \<open>NVSEntry.__str__\<close>. The pieces of the f-strings are evaluated from left to right, so
  a state outside the enumeration raises before the namespace is looked up, and a
  namespace id without a binding raises \<open>KeyError\<close>.
\<close>

definition NVSEntry_str :: "world \<Rightarrow> NVSEntry \<Rightarrow> error + string" where
  "NVSEntry_str w e =
     (case NVSEntryState_name (e_state e) of
        Inl x \<Rightarrow> Inl x
      | Inr sn \<Rightarrow>
          (case namespaces w (PyInt (int (e_ns e))) of
             None \<Rightarrow> Inl KeyError
           | Some nsname \<Rightarrow>
               Inr (sn @ '','' @ NVSDataType_name (e_dataType e) @ '','' @ str_nat (e_size e) @ '',''
                    @ nsname @ '','' @ e_key e @ '','' @ str_value (e_value e))))"

text \<open>
  \<open>readStrValue\<close> and \<open>readBlobValue\<close>. In the \<open>else\<close> branches the argument of
  \<open>warnings.warn\<close> reads \<open>self.dataType\<close>, an attribute that no \<open>NVSEntry\<close> has (the
  attribute is \<open>datatype\<close>): \<open>AttributeError\<close> is raised before \<open>warn\<close> is called.
\<close>

definition readStrValue :: "NVSEntry \<Rightarrow> byte list \<Rightarrow> error + NVSEntry" where
  "readStrValue e data =
     (if e_dataType e = string_t then
        (case unpack_check (e_size e) (slice data 0 (e_size e)) of
           Inl x \<Rightarrow> Inl x
         | Inr v \<Rightarrow>
             (case decode_utf8 (rstrip0 v) of
                Inl x \<Rightarrow> Inl x
              | Inr s \<Rightarrow> Inr (e\<lparr>e_value := PyStr s\<rparr>)))
      else Inl AttributeError)"

definition readBlobValue :: "NVSEntry \<Rightarrow> byte list \<Rightarrow> error + NVSEntry" where
  "readBlobValue e data =
     (if e_dataType e = blob_data then
        Inr (e\<lparr>e_value := PyStr (''b'' @ [CHR 0x27] @ hex (slice data 0 (e_size e)) @ [CHR 0x27])\<rparr>)
      else Inl AttributeError)"

subsection \<open>NVSPage\<close>

definition PAGE_SIZE :: nat where "PAGE_SIZE = 4096"
definition ENTRY_SIZE :: nat where "ENTRY_SIZE = 32"
definition NUM_ENTRIES :: nat where "NUM_ENTRIES = 126"

record NVSPage =
  p_state :: nat
  p_seqNum :: nat
  p_version :: nat
  p_crc :: nat
  p_entries :: "NVSEntry list"

text \<open>Lines 263 to 269: four 2-bit states per bitmap byte, the low pair first.\<close>

definition unpack_states :: "byte list \<Rightarrow> nat list" where
  "unpack_states bitmap =
     concat (map (\<lambda>b. [unat (b AND 3), unat (drop_bit 2 b AND 3),
                        unat (drop_bit 4 b AND 3), unat (drop_bit 6 b AND 3)]) bitmap)"

text \<open>
  Lines 280 to 289: decode the slot at \<open>addr\<close>, then read the value of a string or of a
  blob from the rest of the page, \<open>pageData[addr+32:]\<close>.
\<close>

definition read_slot :: "byte list \<Rightarrow> nat \<Rightarrow> nat \<Rightarrow> world \<Rightarrow> (error + NVSEntry) \<times> world" where
  "read_slot pageData addr st w =
     (case NVSEntry_init (slice pageData addr (addr + ENTRY_SIZE)) st w of
        (Inl x, w') \<Rightarrow> (Inl x, w')
      | (Inr entry, w') \<Rightarrow>
          if e_dataType entry = string_t
          then (readStrValue entry (drop (addr + ENTRY_SIZE) pageData), w')
          else if e_dataType entry = blob_data
          then (readBlobValue entry (drop (addr + ENTRY_SIZE) pageData), w')
          else (Inr entry, w'))"

text \<open>
  Lines 272 to 299, the \<open>while\<close> loop. The cursor advances by the span byte of the entry as
  it is stored; nothing in the source bounds it from below.
\<close>

partial_function (option) read_entries ::
  "byte list \<Rightarrow> nat list \<Rightarrow> nat \<Rightarrow> NVSEntry list \<Rightarrow> world
     \<Rightarrow> ((error + NVSEntry list) \<times> world) option" where
  "read_entries pageData entryState entryNum entries w =
     (if entryNum < NUM_ENTRIES then
        (let addr = (entryNum + 2) * ENTRY_SIZE in
         if entryState ! entryNum \<noteq> Empty then
           (case read_slot pageData addr (entryState ! entryNum) w of
              (Inl x, w') \<Rightarrow> Some (Inl x, w')
            | (Inr entry, w') \<Rightarrow>
                read_entries pageData entryState (entryNum + e_span entry) (entries @ [entry]) w')
         else read_entries pageData entryState (entryNum + 1) entries w)
      else Some (Inr entries, w))"

text \<open>\<open>NVSPage.__init__\<close>.\<close>

definition NVSPage_init :: "byte list \<Rightarrow> world \<Rightarrow> ((error + NVSPage) \<times> world) option" where
  "NVSPage_init pageData w =
     (case unpack_check 32 (slice pageData 0 32) of
        Inl x \<Rightarrow> Some (Inl x, w)
      | Inr h \<Rightarrow>
          let page = \<lparr>p_state = le_uint (slice h 0 4), p_seqNum = le_uint (slice h 4 8),
                      p_version = unat (h ! 8), p_crc = le_uint (slice h 28 32),
                      p_entries = []\<rparr>
          in if p_state page = Active \<or> p_state page = Full then
               (case unpack_check 32 (slice pageData 32 64) of
                  Inl x \<Rightarrow> Some (Inl x, w)
                | Inr bitmap \<Rightarrow>
                    (case read_entries pageData (unpack_states bitmap) 0 [] w of
                       None \<Rightarrow> None
                     | Some (Inl x, w') \<Rightarrow> Some (Inl x, w')
                     | Some (Inr es, w') \<Rightarrow> Some (Inr (page\<lparr>p_entries := es\<rparr>), w')))
             else Some (Inr page, w))"

subsection \<open>extractNVSEntries\<close>

text \<open>\<open>range(0, n, PAGE_SIZE)\<close>: the start of every page, the last one possibly cut short.\<close>

definition page_addrs :: "nat \<Rightarrow> nat list" where
  "page_addrs n = map (\<lambda>k. k * PAGE_SIZE) [0 ..< (n + PAGE_SIZE - 1) div PAGE_SIZE]"

text \<open>Lines 320 to 325: decode each page and keep those that are Active or Full.\<close>

fun parse_pages ::
  "byte list \<Rightarrow> nat list \<Rightarrow> NVSPage list \<Rightarrow> world \<Rightarrow> ((error + NVSPage list) \<times> world) option" where
  "parse_pages imageData [] pages w = Some (Inr pages, w)"
| "parse_pages imageData (pageAddr # rest) pages w =
     (case NVSPage_init (slice imageData pageAddr (pageAddr + PAGE_SIZE)) w of
        None \<Rightarrow> None
      | Some (Inl x, w') \<Rightarrow> Some (Inl x, w')
      | Some (Inr page, w') \<Rightarrow>
          parse_pages imageData rest
            (if p_state page = Active \<or> p_state page = Full then pages @ [page] else pages) w')"

text \<open>
  Lines 339 to 343: the writes to the output file, in order, and the exception that ends
  them, if any. \<open>str(entry)\<close> is called only for an entry that passes the filter.
\<close>

fun write_entries ::
  "world \<Rightarrow> bool \<Rightarrow> bool \<Rightarrow> NVSEntry list \<Rightarrow> string list \<Rightarrow> string list \<times> error option" where
  "write_entries w printWritten printErased [] out = (out, None)"
| "write_entries w printWritten printErased (entry # rest) out =
     (if (printWritten \<and> e_state entry = Written) \<or> (printErased \<and> e_state entry = Erased) then
        (case NVSEntry_str w entry of
           Inl x \<Rightarrow> (out, Some x)
         | Inr s \<Rightarrow> write_entries w printWritten printErased rest (out @ [s @ [CHR 0x0A]]))
      else write_entries w printWritten printErased rest out)"

fun write_pages ::
  "world \<Rightarrow> bool \<Rightarrow> bool \<Rightarrow> NVSPage list \<Rightarrow> string list \<Rightarrow> string list \<times> error option" where
  "write_pages w printWritten printErased [] out = (out, None)"
| "write_pages w printWritten printErased (page # rest) out =
     (case write_entries w printWritten printErased (p_entries page) out of
        (out', Some x) \<Rightarrow> (out', Some x)
      | (out', None) \<Rightarrow> write_pages w printWritten printErased rest out')"

text \<open>Line 336: the first write to the output file.\<close>

definition csv_header :: string where
  "csv_header = ''status,type,size,namespace,name,value'' @ [CHR 0x0A]"

text \<open>
  \<open>extractNVSEntries\<close>, on the bytes of the input file. The result is the sequence of
  strings written to the output file (empty when the file is never opened), the
  exception that ended the run, if any, and the world afterwards; \<open>None\<close> when the run
  does not end. \<open>list.sort\<close> is stable, as \<open>sort_key\<close> is.
\<close>

definition extractNVSEntries ::
  "byte list \<Rightarrow> bool \<Rightarrow> bool \<Rightarrow> world \<Rightarrow> ((string list \<times> error option) \<times> world) option" where
  "extractNVSEntries imageData printWritten printErased w =
     (case parse_pages imageData (page_addrs (length imageData)) [] w of
        None \<Rightarrow> None
      | Some (Inl x, w') \<Rightarrow> Some (([], Some x), w')
      | Some (Inr pages, w') \<Rightarrow>
          Some (write_pages w' printWritten printErased (sort_key p_seqNum pages)
                  [csv_header], w'))"

section \<open>Notions used to state the properties\<close>

text \<open>
  Adding bindings to the namespace table: the only change the decoder makes to the
  world.
\<close>

definition ns_add :: "(pyvalue \<rightharpoonup> string) \<Rightarrow> world \<Rightarrow> world" where
  "ns_add m w = w\<lparr>namespaces := namespaces w ++ m\<rparr>"

text \<open>
  A computation is transparent when its result does not depend on the world it starts
  in and all it does to the world is to add bindings that do not depend on it either.
\<close>

definition transparent :: "(world \<Rightarrow> 'a \<times> world) \<Rightarrow> bool" where
  "transparent f = (\<exists>r m. \<forall>w. f w = (r, ns_add m w))"

text \<open>
  One iteration of the \<open>while\<close> loop of \<open>NVSPage.__init__\<close> that does not leave it, as a
  relation between the values of \<open>entryNum\<close>, \<open>self.entries\<close> and \<open>NVSEntry.namespaces\<close>
  before and after: an Empty slot moves the cursor by one, a slot that decodes moves it by
  the span of the entry.
\<close>

inductive walk_step ::
  "byte list \<Rightarrow> nat list \<Rightarrow> nat \<times> NVSEntry list \<times> world \<Rightarrow> nat \<times> NVSEntry list \<times> world \<Rightarrow> bool"
  for pageData entryState where
  skip: "entryNum < NUM_ENTRIES \<Longrightarrow> entryState ! entryNum = Empty \<Longrightarrow>
         walk_step pageData entryState (entryNum, entries, w) (entryNum + 1, entries, w)"
| entry: "entryNum < NUM_ENTRIES \<Longrightarrow> entryState ! entryNum \<noteq> Empty \<Longrightarrow>
          read_slot pageData ((entryNum + 2) * ENTRY_SIZE) (entryState ! entryNum) w = (Inr entry, w') \<Longrightarrow>
          walk_step pageData entryState (entryNum, entries, w)
            (entryNum + e_span entry, entries @ [entry], w')"

code_pred walk_step .

text \<open>
  The binding that decoding an entry adds to \<open>NVSEntry.namespaces\<close> (line 157): an entry
  of namespace 0 binds the value it has at the end of \<open>__init__\<close> to its key. For a string
  or a blob that value is still \<open>None\<close>; \<open>readStrValue\<close> and \<open>readBlobValue\<close> set the
  final one afterwards.
\<close>

definition ns_key :: "NVSEntry \<Rightarrow> pyvalue" where
  "ns_key entry =
     (if e_dataType entry = string_t \<or> e_dataType entry = blob_data then PyNone
      else e_value entry)"

definition ns_bind :: "(pyvalue \<rightharpoonup> string) \<Rightarrow> NVSEntry \<Rightarrow> (pyvalue \<rightharpoonup> string)" where
  "ns_bind m entry = (if e_ns entry = 0 then m(ns_key entry \<mapsto> e_key entry) else m)"

text \<open>
  The output loop in terms of single entries: the filter of line 340, whether \<open>str(entry)\<close>
  returns under a given table, and the line that is then written.
\<close>

definition selected :: "bool \<Rightarrow> bool \<Rightarrow> NVSEntry \<Rightarrow> bool" where
  "selected printWritten printErased entry =
     ((printWritten \<and> e_state entry = Written) \<or> (printErased \<and> e_state entry = Erased))"

definition renders :: "world \<Rightarrow> NVSEntry \<Rightarrow> bool" where
  "renders w entry = (case NVSEntry_str w entry of Inl x \<Rightarrow> False | Inr s \<Rightarrow> True)"

definition csv_line :: "world \<Rightarrow> NVSEntry \<Rightarrow> string" where
  "csv_line w entry = (case NVSEntry_str w entry of Inl x \<Rightarrow> [] | Inr s \<Rightarrow> s @ [CHR 0x0A])"

text \<open>
  Modelled from the spec: the checksum of section 4.1, "the standard reflected CRC32
  polynomial"; the source has no checksum routine at all. Bitwise, polynomial
  0xEDB88320, initial value and final XOR 0xFFFFFFFF.
\<close>

definition crc32_step :: "32 word \<Rightarrow> 32 word" where
  "crc32_step c = (if bit c 0 then drop_bit 1 c XOR 0xEDB88320 else drop_bit 1 c)"

definition crc32_update :: "32 word \<Rightarrow> byte \<Rightarrow> 32 word" where
  "crc32_update c b = (crc32_step ^^ 8) (c XOR ucast b)"

definition crc32 :: "byte list \<Rightarrow> nat" where
  "crc32 bs = unat (foldl crc32_update 0xFFFFFFFF bs XOR 0xFFFFFFFF)"

section \<open>Concrete inputs\<close>

text \<open>Page headers: state, sequence number, version, 19 unused bytes,
     stored CRC32 (0).\<close>

definition hdr_active5 :: "byte list" where
  "hdr_active5 = [0xfe, 0xff, 0xff, 0xff, 0x05, 0x00, 0x00, 0x00, 0xfe, 0xff, 0xff, 0xff,
     0xff, 0xff, 0xff, 0xff, 0xff, 0xff, 0xff, 0xff, 0xff, 0xff, 0xff, 0xff, 0xff, 0xff,
     0xff, 0xff, 0x00, 0x00, 0x00, 0x00]"

definition hdr_active2 :: "byte list" where
  "hdr_active2 = [0xfe, 0xff, 0xff, 0xff, 0x02, 0x00, 0x00, 0x00, 0xfe, 0xff, 0xff, 0xff,
     0xff, 0xff, 0xff, 0xff, 0xff, 0xff, 0xff, 0xff, 0xff, 0xff, 0xff, 0xff, 0xff, 0xff,
     0xff, 0xff, 0x00, 0x00, 0x00, 0x00]"

definition hdr_empty :: "byte list" where
  "hdr_empty = [0xff, 0xff, 0xff, 0xff, 0x07, 0x00, 0x00, 0x00, 0xfe, 0xff, 0xff, 0xff,
     0xff, 0xff, 0xff, 0xff, 0xff, 0xff, 0xff, 0xff, 0xff, 0xff, 0xff, 0xff, 0xff, 0xff,
     0xff, 0xff, 0x00, 0x00, 0x00, 0x00]"

text \<open>
  Bitmaps: slot 0 Written; slots 0 and 1 Written; slot 0 in state 1 and slot 1 Written;
  slots 124 and 125 Written. Every other slot is Empty.
\<close>

definition bitmap_w :: "byte list" where
  "bitmap_w = [0xfe, 0xff, 0xff, 0xff, 0xff, 0xff, 0xff, 0xff, 0xff, 0xff, 0xff, 0xff,
     0xff, 0xff, 0xff, 0xff, 0xff, 0xff, 0xff, 0xff, 0xff, 0xff, 0xff, 0xff, 0xff, 0xff,
     0xff, 0xff, 0xff, 0xff, 0xff, 0xff]"

definition bitmap_ww :: "byte list" where
  "bitmap_ww = [0xfa, 0xff, 0xff, 0xff, 0xff, 0xff, 0xff, 0xff, 0xff, 0xff, 0xff, 0xff,
     0xff, 0xff, 0xff, 0xff, 0xff, 0xff, 0xff, 0xff, 0xff, 0xff, 0xff, 0xff, 0xff, 0xff,
     0xff, 0xff, 0xff, 0xff, 0xff, 0xff]"

definition bitmap_1w :: "byte list" where
  "bitmap_1w = [0xf9, 0xff, 0xff, 0xff, 0xff, 0xff, 0xff, 0xff, 0xff, 0xff, 0xff, 0xff,
     0xff, 0xff, 0xff, 0xff, 0xff, 0xff, 0xff, 0xff, 0xff, 0xff, 0xff, 0xff, 0xff, 0xff,
     0xff, 0xff, 0xff, 0xff, 0xff, 0xff]"

definition bitmap_last :: "byte list" where
  "bitmap_last = [0xff, 0xff, 0xff, 0xff, 0xff, 0xff, 0xff, 0xff, 0xff, 0xff, 0xff, 0xff,
     0xff, 0xff, 0xff, 0xff, 0xff, 0xff, 0xff, 0xff, 0xff, 0xff, 0xff, 0xff, 0xff, 0xff,
     0xff, 0xff, 0xff, 0xff, 0xff, 0xfa]"

text \<open>
  Slots: namespace id, type tag, span, chunk index, stored CRC32 (0), key, data.
  \<open>entry_wifi\<close> defines namespace 1 as "wifi"; the others are in namespace 1.
\<close>

definition entry_wifi :: "byte list" where
  "entry_wifi = [0x00, 0x01, 0x01, 0xff, 0x00, 0x00, 0x00, 0x00, 0x77, 0x69, 0x66, 0x69,
     0x00, 0x00, 0x00, 0x00, 0x00, 0x00, 0x00, 0x00, 0x00, 0x00, 0x00, 0x00, 0x01, 0xff,
     0xff, 0xff, 0xff, 0xff, 0xff, 0xff]"

definition entry_k7 :: "byte list" where
  "entry_k7 = [0x01, 0x01, 0x01, 0xff, 0x00, 0x00, 0x00, 0x00, 0x6b, 0x00, 0x00, 0x00,
     0x00, 0x00, 0x00, 0x00, 0x00, 0x00, 0x00, 0x00, 0x00, 0x00, 0x00, 0x00, 0x07, 0xff,
     0xff, 0xff, 0xff, 0xff, 0xff, 0xff]"

definition entry_span0 :: "byte list" where
  "entry_span0 = [0x01, 0x01, 0x00, 0xff, 0x00, 0x00, 0x00, 0x00, 0x6b, 0x00, 0x00, 0x00,
     0x00, 0x00, 0x00, 0x00, 0x00, 0x00, 0x00, 0x00, 0x00, 0x00, 0x00, 0x00, 0x07, 0xff,
     0xff, 0xff, 0xff, 0xff, 0xff, 0xff]"

definition entry_span2 :: "byte list" where
  "entry_span2 = [0x01, 0x01, 0x02, 0xff, 0x00, 0x00, 0x00, 0x00, 0x6b, 0x00, 0x00, 0x00,
     0x00, 0x00, 0x00, 0x00, 0x00, 0x00, 0x00, 0x00, 0x00, 0x00, 0x00, 0x00, 0x07, 0xff,
     0xff, 0xff, 0xff, 0xff, 0xff, 0xff]"

definition entry_badtag :: "byte list" where
  "entry_badtag = [0x01, 0x03, 0x01, 0xff, 0x00, 0x00, 0x00, 0x00, 0x6b, 0x00, 0x00,
     0x00, 0x00, 0x00, 0x00, 0x00, 0x00, 0x00, 0x00, 0x00, 0x00, 0x00, 0x00, 0x00, 0x07,
     0xff, 0xff, 0xff, 0xff, 0xff, 0xff, 0xff]"

definition entry_blob100 :: "byte list" where
  "entry_blob100 = [0x01, 0x42, 0x01, 0x00, 0x00, 0x00, 0x00, 0x00, 0x62, 0x00, 0x00,
     0x00, 0x00, 0x00, 0x00, 0x00, 0x00, 0x00, 0x00, 0x00, 0x00, 0x00, 0x00, 0x00, 0x64,
     0x00, 0xff, 0xff, 0x00, 0x00, 0x00, 0x00]"

definition entry_str100 :: "byte list" where
  "entry_str100 = [0x01, 0x21, 0x01, 0xff, 0x00, 0x00, 0x00, 0x00, 0x73, 0x00, 0x00,
     0x00, 0x00, 0x00, 0x00, 0x00, 0x00, 0x00, 0x00, 0x00, 0x00, 0x00, 0x00, 0x00, 0x64,
     0x00, 0xff, 0xff, 0x00, 0x00, 0x00, 0x00]"

definition entry_str2 :: "byte list" where
  "entry_str2 = [0x01, 0x21, 0x02, 0xff, 0x00, 0x00, 0x00, 0x00, 0x73, 0x00, 0x00, 0x00,
     0x00, 0x00, 0x00, 0x00, 0x00, 0x00, 0x00, 0x00, 0x00, 0x00, 0x00, 0x00, 0x02, 0x00,
     0xff, 0xff, 0x00, 0x00, 0x00, 0x00]"

text \<open>Pages of 4096 bytes: header, bitmap, 126 slots.\<close>

definition page_span0 :: "byte list" where
  "page_span0 = hdr_active5 @ bitmap_w @ entry_span0 @ replicate 4000 0xff"

definition page_wifi5 :: "byte list" where
  "page_wifi5 = hdr_active5 @ bitmap_w @ entry_wifi @ replicate 4000 0xff"

definition page_k2 :: "byte list" where
  "page_k2 = hdr_active2 @ bitmap_w @ entry_k7 @ replicate 4000 0xff"

definition page_badtag :: "byte list" where
  "page_badtag = hdr_active5 @ bitmap_w @ entry_badtag @ replicate 4000 0xff"

definition page_state1 :: "byte list" where
  "page_state1 = hdr_active5 @ bitmap_1w @ entry_span2 @ entry_wifi @ replicate 3968 0xff"

definition page_junk :: "byte list" where
  "page_junk = hdr_empty @ bitmap_w @ entry_badtag @ replicate 4000 0xff"

definition page_blob :: "byte list" where
  "page_blob = hdr_active5 @ bitmap_last @ replicate 3968 0xff @ entry_blob100 @ entry_k7"

definition page_str :: "byte list" where
  "page_str = hdr_active5 @ bitmap_last @ replicate 3968 0xff @ entry_str100 @ entry_k7"

definition page_two :: "byte list" where
  "page_two = hdr_active5 @ bitmap_ww @ entry_wifi @ entry_k7 @ replicate 3968 0xff"

definition page_skip0 :: "byte list" where
  "page_skip0 = hdr_active5 @ bitmap_ww @ entry_span2 @ entry_span0 @ replicate 3968 0xff"

text \<open>Decoded entries.\<close>

definition dec_wifi :: NVSEntry where
  "dec_wifi = \<lparr>e_ns = 0, e_dataType = uint8_t, e_span = 1, e_chunkIndex = 255,
     e_crc = 0,
     e_dataCrc = 0, e_size = 1, e_key = ''wifi'', e_value = PyInt 1, e_state = 2\<rparr>"

definition dec_k7 :: NVSEntry where
  "dec_k7 = \<lparr>e_ns = 1, e_dataType = uint8_t, e_span = 1, e_chunkIndex = 255, e_crc = 0,
     e_dataCrc = 0, e_size = 1, e_key = ''k'', e_value = PyInt 7, e_state = 2\<rparr>"

definition dec_str :: NVSEntry where
  "dec_str = \<lparr>e_ns = 1, e_dataType = string_t, e_span = 2, e_chunkIndex = 255,
     e_crc = 0,
     e_dataCrc = 0, e_size = 2, e_key = ''s'', e_value = PyNone, e_state = 2\<rparr>"



section \<open>Lemmas about the model\<close>


lemma ns_add_empty [simp]: "ns_add Map.empty w = w"
  by (simp add: ns_add_def)

lemma ns_add_ns_add: "ns_add m2 (ns_add m1 w) = ns_add (m1 ++ m2) w"
  by (simp add: ns_add_def)

lemma map_add_self: "(m::'a \<rightharpoonup> 'b) ++ m = m"
  by (rule ext) (simp add: map_add_def split: option.split)

lemma ns_add_idem: "ns_add m (ns_add m w) = ns_add m w"
  by (simp add: ns_add_ns_add map_add_self)

lemma warnings_ns_add [simp]: "warnings (ns_add m w) = warnings w"
  by (simp add: ns_add_def)

lemma namespaces_ns_add [simp]: "namespaces (ns_add m w) = namespaces w ++ m"
  by (simp add: ns_add_def)

lemma transparent_ret: "transparent (\<lambda>w. (r, w))"
  unfolding transparent_def by (metis ns_add_empty)

lemma transparent_upd: "transparent (\<lambda>w. (r, w\<lparr>namespaces := (namespaces w)(v \<mapsto> k)\<rparr>))"
  unfolding transparent_def
  by (rule exI[where x=r], rule exI[where x="[v \<mapsto> k]"]) (simp add: ns_add_def)

lemma transparent_sum:
  "(\<And>a. transparent (f a)) \<Longrightarrow> (\<And>b. transparent (g b)) \<Longrightarrow>
   transparent (\<lambda>w. case x of Inl a \<Rightarrow> f a w | Inr b \<Rightarrow> g b w)"
  by (cases x) simp_all

lemma transparent_prod:
  "(\<And>a b. transparent (f a b)) \<Longrightarrow> transparent (\<lambda>w. case x of (a, b) \<Rightarrow> f a b w)"
  by (cases x) simp_all

lemma transparent_if:
  "transparent f \<Longrightarrow> transparent g \<Longrightarrow> transparent (\<lambda>w. if c then f w else g w)"
  by (cases c) simp_all

lemma NVSEntry_init_transparent: "transparent (NVSEntry_init d s)"
  unfolding NVSEntry_init_def Let_def
  by (intro transparent_sum transparent_prod transparent_if transparent_ret transparent_upd)

lemma NVSEntry_init_world:
  "\<exists>r m. \<forall>w. NVSEntry_init d s w = (r, ns_add m w)"
  using NVSEntry_init_transparent[of d s] by (simp add: transparent_def)

lemma read_slot_world:
  "\<exists>r m. \<forall>w. read_slot pd a s w = (r, ns_add m w)"
proof -
  obtain r m where i: "\<And>w. NVSEntry_init (slice pd a (a + ENTRY_SIZE)) s w = (r, ns_add m w)"
    using NVSEntry_init_world by blast
  show ?thesis
    unfolding read_slot_def i
    by (cases r) auto
qed



lemma read_entries_span0:
  assumes n: "n < NUM_ENTRIES" and st: "es ! n \<noteq> Empty"
    and slot: "\<And>w. read_slot pd ((n + 2) * ENTRY_SIZE) (es ! n) w = (Inr e, ns_add m w)"
    and span: "e_span e = 0"
  shows "read_entries pd es n ents w = None"
proof (cases "read_entries pd es n ents w")
  case None
  then show ?thesis .
next
  case (Some r)
  have "\<not> (pd = pd \<and> es = es \<and> n = n)"
  proof (rule read_entries.raw_induct
      [where P = "\<lambda>pd' es' n' ents' w' y. \<not> (pd' = pd \<and> es' = es \<and> n' = n)"], goal_cases)
    case (1 f pd' es' n' ents' w' y)
    show ?case
    proof
      assume eq: "pd' = pd \<and> es' = es \<and> n' = n"
      from 1(2) have "f pd es (n + e_span e) (ents' @ [e]) (ns_add m w') = Some y"
        using n st by (simp only: eq Let_def if_True not_False_eq_True slot prod.case sum.case)
      then have "f pd es n (ents' @ [e]) (ns_add m w') = Some y"
        by (simp add: span)
      from 1(1)[OF this] show False by simp
    qed
  qed (rule Some)
  then show ?thesis by simp
qed


lemma read_entries_done:
  "\<not> n < NUM_ENTRIES \<Longrightarrow> read_entries pd es n ents w = Some (Inr ents, w)"
  by (subst read_entries.simps) simp

lemma read_entries_skip:
  "n < NUM_ENTRIES \<Longrightarrow> es ! n = Empty \<Longrightarrow>
   read_entries pd es n ents w = read_entries pd es (n + 1) ents w"
  by (subst read_entries.simps) simp

lemma read_entries_raise:
  "n < NUM_ENTRIES \<Longrightarrow> es ! n \<noteq> Empty \<Longrightarrow>
   read_slot pd ((n + 2) * ENTRY_SIZE) (es ! n) w = (Inl x, w') \<Longrightarrow>
   read_entries pd es n ents w = Some (Inl x, w')"
  by (subst read_entries.simps) (simp only: Let_def if_True not_False_eq_True prod.case sum.case)

lemma read_entries_entry:
  "n < NUM_ENTRIES \<Longrightarrow> es ! n \<noteq> Empty \<Longrightarrow>
   read_slot pd ((n + 2) * ENTRY_SIZE) (es ! n) w = (Inr e, w') \<Longrightarrow>
   read_entries pd es n ents w = read_entries pd es (n + e_span e) (ents @ [e]) w'"
  by (subst read_entries.simps) (simp only: Let_def if_True not_False_eq_True prod.case sum.case)

lemma read_entries_stall:
  assumes n: "n < NUM_ENTRIES" and st: "es ! n \<noteq> Empty"
    and slot: "read_slot pd ((n + 2) * ENTRY_SIZE) (es ! n) w = (Inr e, w')"
    and span: "e_span e = 0"
  shows "read_entries pd es n ents w = None"
proof -
  obtain r m where rm: "\<And>w. read_slot pd ((n + 2) * ENTRY_SIZE) (es ! n) w = (r, ns_add m w)"
    using read_slot_world by blast
  from rm[of w] slot have "r = Inr e" by simp
  from read_entries_span0[OF n st rm[unfolded this] span] show ?thesis .
qed

lemma read_entries_shape:
  "(\<forall>ents w. read_entries pd es n ents w = None) \<or>
   (\<exists>r m. \<forall>ents w. read_entries pd es n ents w = Some (map_sum id ((@) ents) r, ns_add m w))"
proof (induction "NUM_ENTRIES - n" arbitrary: n rule: less_induct)
  case less
  show ?case
  proof (cases "n < NUM_ENTRIES")
    case False
    then have "\<forall>ents w. read_entries pd es n ents w = Some (map_sum id ((@) ents) (Inr []), ns_add Map.empty w)"
      by (simp add: read_entries_done)
    then show ?thesis by blast
  next
    case n: True
    show ?thesis
    proof (cases "es ! n = Empty")
      case True
      have "NUM_ENTRIES - (n + 1) < NUM_ENTRIES - n" using n by simp
      from less[OF this] show ?thesis
        by (simp add: read_entries_skip[OF n True])
    next
      case st: False
      obtain r m where slot: "\<And>w. read_slot pd ((n + 2) * ENTRY_SIZE) (es ! n) w = (r, ns_add m w)"
        using read_slot_world by blast
      show ?thesis
      proof (cases r)
        case (Inl x)
        have "\<forall>ents w. read_entries pd es n ents w = Some (map_sum id ((@) ents) (Inl x), ns_add m w)"
          using read_entries_raise[OF n st slot[unfolded Inl]] by simp
        then show ?thesis by blast
      next
        case (Inr e)
        note step = read_entries_entry[OF n st slot[unfolded Inr]]
        show ?thesis
        proof (cases "e_span e = 0")
          case True
          show ?thesis
            using read_entries_span0[OF n st slot[unfolded Inr] True] by simp
        next
          case False
          then have "NUM_ENTRIES - (n + e_span e) < NUM_ENTRIES - n" using n by simp
          from less[OF this] show ?thesis
          proof
            assume "\<forall>ents w. read_entries pd es (n + e_span e) ents w = None"
            then show ?thesis by (simp add: step)
          next
            assume "\<exists>r m. \<forall>ents w. read_entries pd es (n + e_span e) ents w =
                      Some (map_sum id ((@) ents) r, ns_add m w)"
            then obtain r' m' where r': "\<And>ents w. read_entries pd es (n + e_span e) ents w =
                      Some (map_sum id ((@) ents) r', ns_add m' w)" by blast
            have "\<forall>ents w. read_entries pd es n ents w =
                    Some (map_sum id ((@) ents) (map_sum id ((#) e) r'), ns_add (m ++ m') w)"
              by (cases r') (simp_all add: step r' ns_add_ns_add)
            then show ?thesis by blast
          qed
        qed
      qed
    qed
  qed
qed

lemma read_entries_again:
  assumes "read_entries pd es n ents w = Some (r, w')"
  shows "read_entries pd es n ents w' = Some (r, w')"
  using read_entries_shape[of pd es n] assms
  by (auto simp: ns_add_idem)



lemma NVSPage_init_shape:
  "(\<forall>w. NVSPage_init pd w = None) \<or> (\<exists>r m. \<forall>w. NVSPage_init pd w = Some (r, ns_add m w))"
proof (cases "unpack_check 32 (slice pd 0 32)")
  case (Inl x)
  then have "\<forall>w. NVSPage_init pd w = Some (Inl x, ns_add Map.empty w)"
    by (simp add: NVSPage_init_def)
  then show ?thesis by blast
next
  case h: (Inr h)
  define page where "page = \<lparr>p_state = le_uint (slice h 0 4), p_seqNum = le_uint (slice h 4 8),
                      p_version = unat (h ! 8), p_crc = le_uint (slice h 28 32),
                      p_entries = []\<rparr>"
  show ?thesis
  proof (cases "p_state page = Active \<or> p_state page = Full")
    case False
    then have "\<forall>w. NVSPage_init pd w = Some (Inr page, ns_add Map.empty w)"
      by (simp add: NVSPage_init_def h page_def Let_def)
    then show ?thesis by blast
  next
    case act: True
    show ?thesis
    proof (cases "unpack_check 32 (slice pd 32 64)")
      case (Inl x)
      then have "\<forall>w. NVSPage_init pd w = Some (Inl x, ns_add Map.empty w)"
        using act by (simp add: NVSPage_init_def h page_def Let_def)
      then show ?thesis by blast
    next
      case bm: (Inr bm)
      have eq: "NVSPage_init pd w =
          (case read_entries pd (unpack_states bm) 0 [] w of
                       None \<Rightarrow> None
                     | Some (Inl x, w') \<Rightarrow> Some (Inl x, w')
                     | Some (Inr es, w') \<Rightarrow> Some (Inr (page\<lparr>p_entries := es\<rparr>), w'))" for w
        using act unfolding page_def by (simp add: NVSPage_init_def h bm Let_def)
      from read_entries_shape[of pd "unpack_states bm" 0] show ?thesis
      proof
        assume "\<forall>ents w. read_entries pd (unpack_states bm) 0 ents w = None"
        then show ?thesis by (simp add: eq)
      next
        assume "\<exists>r m. \<forall>ents w. read_entries pd (unpack_states bm) 0 ents w =
                  Some (map_sum id ((@) ents) r, ns_add m w)"
        then obtain r m where r: "\<And>ents w. read_entries pd (unpack_states bm) 0 ents w =
                  Some (map_sum id ((@) ents) r, ns_add m w)" by blast
        have "\<forall>w. NVSPage_init pd w = Some (map_sum id (\<lambda>es. page\<lparr>p_entries := es\<rparr>) r, ns_add m w)"
          by (cases r) (simp_all add: eq r)
        then show ?thesis by blast
      qed
    qed
  qed
qed

lemma parse_pages_shape:
  "(\<forall>pages w. parse_pages img addrs pages w = None) \<or>
   (\<exists>r m. \<forall>pages w. parse_pages img addrs pages w = Some (map_sum id ((@) pages) r, ns_add m w))"
proof (induction addrs)
  case Nil
  have "\<forall>pages w. parse_pages img [] pages w = Some (map_sum id ((@) pages) (Inr []), ns_add Map.empty w)"
    by simp
  then show ?case by blast
next
  case (Cons a addrs)
  from NVSPage_init_shape[of "slice img a (a + PAGE_SIZE)"] show ?case
  proof
    assume "\<forall>w. NVSPage_init (slice img a (a + PAGE_SIZE)) w = None"
    then show ?thesis by simp
  next
    assume "\<exists>r m. \<forall>w. NVSPage_init (slice img a (a + PAGE_SIZE)) w = Some (r, ns_add m w)"
    then obtain r m where r: "\<And>w. NVSPage_init (slice img a (a + PAGE_SIZE)) w = Some (r, ns_add m w)"
      by blast
    show ?thesis
    proof (cases r)
      case (Inl x)
      then have "\<forall>pages w. parse_pages img (a # addrs) pages w =
                   Some (map_sum id ((@) pages) (Inl x), ns_add m w)"
        by (simp add: r)
      then show ?thesis by blast
    next
      case (Inr page)
      from Cons.IH show ?thesis
      proof
        assume "\<forall>pages w. parse_pages img addrs pages w = None"
        then show ?thesis by (simp add: r Inr)
      next
        assume "\<exists>r m. \<forall>pages w. parse_pages img addrs pages w =
                  Some (map_sum id ((@) pages) r, ns_add m w)"
        then obtain r' m' where r': "\<And>pages w. parse_pages img addrs pages w =
                  Some (map_sum id ((@) pages) r', ns_add m' w)" by blast
        have "\<forall>pages w. parse_pages img (a # addrs) pages w =
                Some (map_sum id ((@) pages)
                       (map_sum id ((@) (if p_state page = Active \<or> p_state page = Full
                                         then [page] else [])) r'),
                      ns_add (m ++ m') w)"
          by (cases r') (simp_all add: r Inr r' ns_add_ns_add)
        then show ?thesis by blast
      qed
    qed
  qed
qed

lemma extract_again:
  assumes "extractNVSEntries img pW pE w = Some (out, w1)"
  shows "extractNVSEntries img pW pE w1 = Some (out, w1)"
proof -
  from parse_pages_shape[of img "page_addrs (length img)"] show ?thesis
  proof
    assume "\<forall>pages w. parse_pages img (page_addrs (length img)) pages w = None"
    with assms show ?thesis by (simp add: extractNVSEntries_def)
  next
    assume "\<exists>r m. \<forall>pages w. parse_pages img (page_addrs (length img)) pages w =
              Some (map_sum id ((@) pages) r, ns_add m w)"
    then obtain r m where r: "\<And>pages w. parse_pages img (page_addrs (length img)) pages w =
              Some (map_sum id ((@) pages) r, ns_add m w)" by blast
    from assms have w1: "w1 = ns_add m w"
      by (cases r) (auto simp: extractNVSEntries_def r)
    from assms show ?thesis
      by (cases r) (auto simp: extractNVSEntries_def r w1 ns_add_idem)
  qed
qed



lemma write_entries_append:
  "write_entries w pW pE (xs @ ys) out =
     (case write_entries w pW pE xs out of
        (out', Some x) \<Rightarrow> (out', Some x)
      | (out', None) \<Rightarrow> write_entries w pW pE ys out')"
  by (induction xs arbitrary: out) (auto split: sum.split)

lemma write_pages_concat:
  "write_pages w pW pE pages out = write_entries w pW pE (concat (map p_entries pages)) out"
  by (induction pages arbitrary: out) (auto simp: write_entries_append split: prod.split option.split)

lemma write_entries_filter:
  "write_entries w pW pE (filter (\<lambda>e. e_state e = Written \<or> e_state e = Erased) es) out =
   write_entries w pW pE es out"
  by (induction es arbitrary: out) (auto split: sum.split)



lemma selected_str:
  "selected pW pE e \<Longrightarrow> NVSEntry_str w e = Inl x \<Longrightarrow> x = KeyError"
  by (auto simp: selected_def NVSEntry_str_def NVSEntryState_name_def Written_def Erased_def
      split: option.splits)

lemma write_entries_Cons:
  "write_entries w pW pE (e # es) out =
     (if selected pW pE e then
        (case NVSEntry_str w e of
           Inl x \<Rightarrow> (out, Some x)
         | Inr s \<Rightarrow> write_entries w pW pE es (out @ [s @ [CHR 0x0A]]))
      else write_entries w pW pE es out)"
  by (simp add: selected_def)

lemma write_entries_lines:
  "write_entries w pW pE es out =
     (out @ map (csv_line w) (takeWhile (renders w) (filter (selected pW pE) es)),
      if list_all (renders w) (filter (selected pW pE) es) then None else Some KeyError)"
proof (induction es arbitrary: out)
  case Nil
  then show ?case by simp
next
  case (Cons e es)
  show ?case
  proof (cases "selected pW pE e")
    case False
    then show ?thesis using Cons[of out] by (simp only: write_entries_Cons if_False filter.simps)
  next
    case True
    show ?thesis
    proof (cases "NVSEntry_str w e")
      case (Inl x)
      have r: "\<not> renders w e" by (simp add: renders_def Inl)
      from selected_str[OF True Inl] have x: "x = KeyError" .
      show ?thesis
        unfolding write_entries_Cons using True r by (simp add: Inl x)
    next
      case (Inr s)
      have r: "renders w e" "csv_line w e = s @ [CHR 0x0A]"
        by (simp_all add: renders_def csv_line_def Inr)
      show ?thesis
        unfolding write_entries_Cons using True r Cons[of "out @ [s @ [CHR 0x0A]]"]
        by (simp add: Inr)
    qed
  qed
qed

lemma NVSEntry_init_Inr:
  assumes "NVSEntry_init d s w = (Inr e, w')"
  shows "24 \<le> length d" and "e_span e = unat (d ! 2)" and "e_state e = s"
    and "warnings w' = warnings w"
proof -
  from assms obtain h where h: "unpack_check 24 (slice d 0 24) = Inr h"
    by (auto simp: NVSEntry_init_def split: sum.splits)
  then have hd: "h = take 24 d" and len: "24 \<le> length d"
    by (auto simp: unpack_check_def slice_def split: if_splits)
  show "24 \<le> length d" by fact
  from assms h show "e_span e = unat (d ! 2)"
    by (auto simp: NVSEntry_init_def Let_def hd split: sum.splits if_splits prod.splits)
  from assms h show "e_state e = s"
    by (auto simp: NVSEntry_init_def Let_def split: sum.splits if_splits prod.splits)
  from assms h show "warnings w' = warnings w"
    by (auto simp: NVSEntry_init_def Let_def split: sum.splits if_splits prod.splits)
qed

lemma readStrValue_Inr:
  "readStrValue e data = Inr e' \<Longrightarrow> e_span e' = e_span e \<and> e_state e' = e_state e"
  by (auto simp: readStrValue_def split: if_splits sum.splits)

lemma readBlobValue_Inr:
  "readBlobValue e data = Inr e' \<Longrightarrow> e_span e' = e_span e \<and> e_state e' = e_state e"
  by (auto simp: readBlobValue_def split: if_splits)

lemma read_slot_Inr:
  assumes "read_slot pd a s w = (Inr e, w')"
  shows "a + 24 \<le> length pd" and "e_span e = unat (pd ! (a + 2))" and "e_state e = s"
    and "warnings w' = warnings w"
proof -
  from assms obtain e0 where e0: "NVSEntry_init (slice pd a (a + ENTRY_SIZE)) s w = (Inr e0, w')"
    and e: "e_span e = e_span e0 \<and> e_state e = e_state e0"
    by (auto simp: read_slot_def split: prod.splits sum.splits if_splits
        dest: readStrValue_Inr readBlobValue_Inr)
  note i = NVSEntry_init_Inr[OF e0]
  from i(1) show len: "a + 24 \<le> length pd"
    by (simp add: slice_def ENTRY_SIZE_def)
  have "slice pd a (a + ENTRY_SIZE) ! 2 = pd ! (a + 2)"
    using len by (simp add: slice_def ENTRY_SIZE_def)
  with i(2) e show "e_span e = unat (pd ! (a + 2))" by simp
  from i(3) e show "e_state e = s" by simp
  from i(4) show "warnings w' = warnings w" .
qed

lemma read_slot_cases:
  assumes "read_slot pd addr st w = (r, w')"
  obtains (raise) x where "NVSEntry_init (slice pd addr (addr + ENTRY_SIZE)) st w = (Inl x, w')" "r = Inl x"
  | (str) e0 where "NVSEntry_init (slice pd addr (addr + ENTRY_SIZE)) st w = (Inr e0, w')"
      "e_dataType e0 = string_t" "r = readStrValue e0 (drop (addr + ENTRY_SIZE) pd)"
  | (blob) e0 where "NVSEntry_init (slice pd addr (addr + ENTRY_SIZE)) st w = (Inr e0, w')"
      "e_dataType e0 = blob_data" "r = readBlobValue e0 (drop (addr + ENTRY_SIZE) pd)"
  | (other) e0 where "NVSEntry_init (slice pd addr (addr + ENTRY_SIZE)) st w = (Inr e0, w')"
      "e_dataType e0 \<noteq> string_t" "e_dataType e0 \<noteq> blob_data" "r = Inr e0"
  using assms
  by (auto simp: read_slot_def split: prod.splits sum.splits if_splits)

lemma read_entries_returns:
  assumes "\<forall>i<NUM_ENTRIES. es ! i \<noteq> Empty \<longrightarrow> (i + 2) * ENTRY_SIZE + 2 < length pd \<longrightarrow>
             pd ! ((i + 2) * ENTRY_SIZE + 2) \<noteq> 0"
  shows "\<exists>r. read_entries pd es n ents w = Some r"
proof (induction "NUM_ENTRIES - n" arbitrary: n ents w rule: less_induct)
  case less
  show ?case
  proof (cases "n < NUM_ENTRIES")
    case False
    then show ?thesis by (simp add: read_entries_done)
  next
    case n: True
    show ?thesis
    proof (cases "es ! n = Empty")
      case True
      have "NUM_ENTRIES - (n + 1) < NUM_ENTRIES - n" using n by simp
      from less[OF this] show ?thesis
        by (simp add: read_entries_skip[OF n True])
    next
      case st: False
      obtain r w' where slot: "read_slot pd ((n + 2) * ENTRY_SIZE) (es ! n) w = (r, w')"
        by (cases "read_slot pd ((n + 2) * ENTRY_SIZE) (es ! n) w")
      show ?thesis
      proof (cases r)
        case (Inl x)
        show ?thesis
          using read_entries_raise[OF n st slot[unfolded Inl]] by simp
      next
        case (Inr e)
        note s = read_slot_Inr[OF slot[unfolded Inr]]
        from s(1) have "(n + 2) * ENTRY_SIZE + 2 < length pd" by simp
        with assms n st have "pd ! ((n + 2) * ENTRY_SIZE + 2) \<noteq> 0" by blast
        with s(2) have "e_span e \<noteq> 0" by (simp add: unat_eq_0)
        then have "NUM_ENTRIES - (n + e_span e) < NUM_ENTRIES - n" using n by simp
        from less[OF this] show ?thesis
          by (simp add: read_entries_entry[OF n st slot[unfolded Inr]])
      qed
    qed
  qed
qed

lemma NVSPage_init_returns:
  assumes "\<forall>i<NUM_ENTRIES. unpack_states (slice pd 32 64) ! i \<noteq> Empty \<longrightarrow>
             (i + 2) * ENTRY_SIZE + 2 < length pd \<longrightarrow> pd ! ((i + 2) * ENTRY_SIZE + 2) \<noteq> 0"
  shows "\<exists>r. NVSPage_init pd w = Some r"
proof -
  have bm: "unpack_check 32 (slice pd 32 64) = Inr b \<Longrightarrow> b = slice pd 32 64" for b
    by (auto simp: unpack_check_def split: if_splits)
  show ?thesis
    unfolding NVSPage_init_def Let_def
    using read_entries_returns[OF assms, of 0 "[]" w]
    by (auto split: sum.split option.split prod.split dest!: bm)
qed



lemma read_entries_cong:
  assumes "\<And>i w. i < NUM_ENTRIES \<Longrightarrow> es ! i \<noteq> Empty \<Longrightarrow>
             read_slot pd ((i + 2) * ENTRY_SIZE) (es ! i) w = read_slot pd' ((i + 2) * ENTRY_SIZE) (es ! i) w"
  shows "read_entries pd es n ents w = read_entries pd' es n ents w"
proof (induction "NUM_ENTRIES - n" arbitrary: n ents w rule: less_induct)
  case less
  show ?case
  proof (cases "n < NUM_ENTRIES")
    case False
    then show ?thesis by (simp add: read_entries_done)
  next
    case n: True
    show ?thesis
    proof (cases "es ! n = Empty")
      case True
      have "NUM_ENTRIES - (n + 1) < NUM_ENTRIES - n" using n by simp
      from less[OF this] show ?thesis
        by (simp add: read_entries_skip[OF n True])
    next
      case st: False
      obtain r m where slot: "\<And>w. read_slot pd ((n + 2) * ENTRY_SIZE) (es ! n) w = (r, ns_add m w)"
        using read_slot_world by blast
      have slot': "\<And>w. read_slot pd' ((n + 2) * ENTRY_SIZE) (es ! n) w = (r, ns_add m w)"
        using assms[OF n st] slot by simp
      show ?thesis
      proof (cases r)
        case (Inl x)
        show ?thesis
          using read_entries_raise[OF n st slot[unfolded Inl]]
            read_entries_raise[OF n st slot'[unfolded Inl]] by simp
      next
        case (Inr e)
        show ?thesis
        proof (cases "e_span e = 0")
          case True
          show ?thesis
            using read_entries_span0[OF n st slot[unfolded Inr] True]
              read_entries_span0[OF n st slot'[unfolded Inr] True] by simp
        next
          case False
          then have "NUM_ENTRIES - (n + e_span e) < NUM_ENTRIES - n" using n by simp
          from less[OF this] show ?thesis
            by (simp add: read_entries_entry[OF n st slot[unfolded Inr]]
                read_entries_entry[OF n st slot'[unfolded Inr]])
        qed
      qed
    qed
  qed
qed

lemma slice_patch_after:
  assumes "length c = b - a" "a \<le> b" "b \<le> length xs" "b \<le> i"
  shows "slice (take a xs @ c @ drop b xs) i j = slice xs i j"
    and "drop i (take a xs @ c @ drop b xs) = drop i xs"
proof -
  have "drop i (take a xs @ c @ drop b xs) = drop i xs"
    using assms by (simp add: min_def)
  then show "drop i (take a xs @ c @ drop b xs) = drop i xs" .
  then show "slice (take a xs @ c @ drop b xs) i j = slice xs i j"
    by (simp add: slice_def)
qed

lemma slice_take_append:
  assumes b: "b \<le> k" and k: "k \<le> length xs"
  shows "slice (take k xs @ c) a b = slice xs a b"
proof -
  have "take (b - a) (drop a (take k xs @ c)) = take (b - a) (drop a (take k xs))"
    using b k by simp
  also have "\<dots> = take (b - a) (take (k - a) (drop a xs))"
    by (simp add: drop_take)
  also have "\<dots> = take (b - a) (drop a xs)"
    using b by (simp add: min_def)
  finally show ?thesis by (simp add: slice_def)
qed

lemma NVSPage_init_crc_ignored:
  assumes c: "length c = 4" and len: "32 \<le> length pd"
  shows "NVSPage_init (take 28 pd @ c @ drop 32 pd) w =
           map_option (map_prod (map_sum id (p_crc_update (\<lambda>_. le_uint c))) id) (NVSPage_init pd w)"
proof -
  let ?pd' = "take 28 pd @ c @ drop 32 pd"
  have h: "slice ?pd' 0 32 = take 28 (slice pd 0 32) @ c"
    using c len by (simp add: slice_def min_def)
  have hl: "length (slice pd 0 32) = 32" using len by (simp add: slice_def)
  have f: "slice (take 28 (slice pd 0 32) @ c) a b = slice (slice pd 0 32) a b" if "b \<le> 28" for a b
    using that hl by (simp add: slice_take_append)
  have f8: "(take 28 (slice pd 0 32) @ c) ! 8 = slice pd 0 32 ! 8"
    using hl by (simp add: nth_append)
  have fc: "slice (take 28 (slice pd 0 32) @ c) 28 32 = c"
    using hl c by (simp add: slice_def)
  have bm: "slice ?pd' 32 64 = slice pd 32 64"
    using slice_patch_after(1)[of c 32 28 pd 32 64] c len by simp
  have re: "read_entries ?pd' es 0 [] w = read_entries pd es 0 [] w" for es
  proof (rule read_entries_cong)
    fix i w
    define a where "a = (i + 2) * ENTRY_SIZE"
    have a: "32 \<le> a" "32 \<le> a + ENTRY_SIZE" by (simp_all add: a_def ENTRY_SIZE_def)
    have p1: "slice ?pd' a (a + ENTRY_SIZE) = slice pd a (a + ENTRY_SIZE)"
      using slice_patch_after(1)[of c 32 28 pd a] c len a by simp
    have p2: "drop (a + ENTRY_SIZE) ?pd' = drop (a + ENTRY_SIZE) pd"
      using slice_patch_after(2)[of c 32 28 pd "a + ENTRY_SIZE"] c len a by simp
    show "read_slot ?pd' ((i + 2) * ENTRY_SIZE) (es ! i) w =
          read_slot pd ((i + 2) * ENTRY_SIZE) (es ! i) w"
      unfolding a_def[symmetric] read_slot_def p1 p2 ..
  qed
  show ?thesis
    unfolding NVSPage_init_def h bm re
    using hl c
    by (simp add: unpack_check_def Let_def f f8 fc split: option.split sum.split prod.split)
qed

subsection \<open>Evaluation of the concrete inputs\<close>



lemma lens [simp]:
  "length hdr_active5 = 32" "length hdr_active2 = 32" "length hdr_empty = 32"
  "length bitmap_w = 32" "length bitmap_ww = 32" "length bitmap_1w = 32" "length bitmap_last = 32"
  "length entry_wifi = 32" "length entry_k7 = 32" "length entry_span0 = 32"
  "length entry_span2 = 32" "length entry_badtag = 32" "length entry_blob100 = 32"
  "length entry_str100 = 32"
  by (simp_all add: hdr_active5_def hdr_active2_def hdr_empty_def bitmap_w_def bitmap_ww_def
      bitmap_1w_def bitmap_last_def entry_wifi_def entry_k7_def entry_span0_def entry_span2_def
      entry_badtag_def entry_blob100_def entry_str100_def)

lemma states_w: "unpack_states bitmap_w = [2, 3, 3, 3, 3, 3, 3, 3, 3, 3, 3, 3, 3, 3, 3, 3, 3, 3, 3, 3, 3, 3, 3, 3, 3, 3, 3, 3, 3, 3, 3, 3, 3, 3, 3, 3, 3, 3, 3, 3, 3, 3, 3, 3, 3, 3, 3, 3, 3, 3, 3, 3, 3, 3, 3, 3, 3, 3, 3, 3, 3, 3, 3, 3, 3, 3, 3, 3, 3, 3, 3, 3, 3, 3, 3, 3, 3, 3, 3, 3, 3, 3, 3, 3, 3, 3, 3, 3, 3, 3, 3, 3, 3, 3, 3, 3, 3, 3, 3, 3, 3, 3, 3, 3, 3, 3, 3, 3, 3, 3, 3, 3, 3, 3, 3, 3, 3, 3, 3, 3, 3, 3, 3, 3, 3, 3, 3, 3]"
  by (simp add: unpack_states_def bitmap_w_def)

lemma states_ww: "unpack_states bitmap_ww = [2, 2, 3, 3, 3, 3, 3, 3, 3, 3, 3, 3, 3, 3, 3, 3, 3, 3, 3, 3, 3, 3, 3, 3, 3, 3, 3, 3, 3, 3, 3, 3, 3, 3, 3, 3, 3, 3, 3, 3, 3, 3, 3, 3, 3, 3, 3, 3, 3, 3, 3, 3, 3, 3, 3, 3, 3, 3, 3, 3, 3, 3, 3, 3, 3, 3, 3, 3, 3, 3, 3, 3, 3, 3, 3, 3, 3, 3, 3, 3, 3, 3, 3, 3, 3, 3, 3, 3, 3, 3, 3, 3, 3, 3, 3, 3, 3, 3, 3, 3, 3, 3, 3, 3, 3, 3, 3, 3, 3, 3, 3, 3, 3, 3, 3, 3, 3, 3, 3, 3, 3, 3, 3, 3, 3, 3, 3, 3]"
  by (simp add: unpack_states_def bitmap_ww_def)

lemma states_1w: "unpack_states bitmap_1w = [1, 2, 3, 3, 3, 3, 3, 3, 3, 3, 3, 3, 3, 3, 3, 3, 3, 3, 3, 3, 3, 3, 3, 3, 3, 3, 3, 3, 3, 3, 3, 3, 3, 3, 3, 3, 3, 3, 3, 3, 3, 3, 3, 3, 3, 3, 3, 3, 3, 3, 3, 3, 3, 3, 3, 3, 3, 3, 3, 3, 3, 3, 3, 3, 3, 3, 3, 3, 3, 3, 3, 3, 3, 3, 3, 3, 3, 3, 3, 3, 3, 3, 3, 3, 3, 3, 3, 3, 3, 3, 3, 3, 3, 3, 3, 3, 3, 3, 3, 3, 3, 3, 3, 3, 3, 3, 3, 3, 3, 3, 3, 3, 3, 3, 3, 3, 3, 3, 3, 3, 3, 3, 3, 3, 3, 3, 3, 3]"
  by (simp add: unpack_states_def bitmap_1w_def)


lemma read_entries_unfold:
  "read_entries pd es n ents w =
     (if n < NUM_ENTRIES then
         if es ! n \<noteq> Empty then
           (case read_slot pd ((n + 2) * ENTRY_SIZE) (es ! n) w of
              (Inl x, w') \<Rightarrow> Some (Inl x, w')
            | (Inr entry, w') \<Rightarrow>
                read_entries pd es (n + e_span entry) (ents @ [entry]) w')
         else read_entries pd es (n + 1) ents w
      else Some (Inr ents, w))"
  by (subst read_entries.simps) (simp only: Let_def)

lemma skip_w: "read_entries pd (unpack_states bitmap_w) 1 ents w = Some (Inr ents, w)"
  unfolding states_w by (simp add: read_entries_unfold NUM_ENTRIES_def Empty_def)

lemma skip_ww: "read_entries pd (unpack_states bitmap_ww) 2 ents w = Some (Inr ents, w)"
  unfolding states_ww by (simp add: read_entries_unfold NUM_ENTRIES_def Empty_def)

lemma skip_1w: "read_entries pd (unpack_states bitmap_1w) 2 ents w = Some (Inr ents, w)"
  unfolding states_1w by (simp add: read_entries_unfold NUM_ENTRIES_def Empty_def)

lemma init_wifi: "NVSEntry_init entry_wifi 2 w = (Inr dec_wifi, ns_add [PyInt 1 \<mapsto> ''wifi''] w)"
  by (simp add: NVSEntry_init_def entry_wifi_def unpack_check_def slice_def NVSDataType_of_def
      decode_utf8_def rstrip0_def byte_char_def char_of_def bit_iff_odd Empty_def Let_def dec_wifi_def
      ns_add_def)

lemma init_k7: "NVSEntry_init entry_k7 2 w = (Inr dec_k7, w)"
  by (simp add: NVSEntry_init_def entry_k7_def unpack_check_def slice_def NVSDataType_of_def
      decode_utf8_def rstrip0_def byte_char_def char_of_def bit_iff_odd Empty_def Let_def dec_k7_def)

lemma init_span2: "NVSEntry_init entry_span2 st w =
    (if st = Empty then (Inr (dec_k7\<lparr>e_span := 2, e_size := 0, e_value := PyNone, e_state := st\<rparr>), w)
     else (Inr (dec_k7\<lparr>e_span := 2, e_state := st\<rparr>), w))"
  by (simp add: NVSEntry_init_def entry_span2_def unpack_check_def slice_def NVSDataType_of_def
      decode_utf8_def rstrip0_def byte_char_def char_of_def bit_iff_odd Let_def dec_k7_def)

lemma NVSPage_init_active:
  assumes "slice pd 0 32 = h" "length h = 32" "le_uint (slice h 0 4) = Active"
    and "slice pd 32 64 = b" "length b = 32"
  shows "NVSPage_init pd w =
    (case read_entries pd (unpack_states b) 0 [] w of
       None \<Rightarrow> None
     | Some (r, w') \<Rightarrow>
         Some (map_sum id (\<lambda>es. \<lparr>p_state = Active, p_seqNum = le_uint (slice h 4 8),
                 p_version = unat (h ! 8), p_crc = le_uint (slice h 28 32), p_entries = es\<rparr>) r, w'))"
  using assms
  by (simp add: NVSPage_init_def unpack_check_def Let_def split: option.split sum.split prod.split)

lemma hdr5: "le_uint (slice hdr_active5 0 4) = Active" "le_uint (slice hdr_active5 4 8) = 5"
  "unat (hdr_active5 ! 8) = 254" "le_uint (slice hdr_active5 28 32) = 0"
  by (simp_all add: hdr_active5_def slice_def Active_def)

lemma hdr2: "le_uint (slice hdr_active2 0 4) = Active" "le_uint (slice hdr_active2 4 8) = 2"
  "unat (hdr_active2 ! 8) = 254" "le_uint (slice hdr_active2 28 32) = 0"
  by (simp_all add: hdr_active2_def slice_def Active_def)

lemma page_wifi5_init:
  "NVSPage_init page_wifi5 w =
     Some (Inr \<lparr>p_state = Active, p_seqNum = 5, p_version = 254, p_crc = 0, p_entries = [dec_wifi]\<rparr>,
           ns_add [PyInt 1 \<mapsto> ''wifi''] w)"
proof -
  have h: "slice page_wifi5 0 32 = hdr_active5" and b: "slice page_wifi5 32 64 = bitmap_w"
    by (simp_all add: page_wifi5_def slice_def)
  have s: "unpack_states bitmap_w ! 0 = 2" by (simp add: states_w)
  have slot: "read_slot page_wifi5 64 2 w = (Inr dec_wifi, ns_add [PyInt 1 \<mapsto> ''wifi''] w)"
    by (simp add: read_slot_def page_wifi5_def slice_def ENTRY_SIZE_def init_wifi)
       (simp add: dec_wifi_def)
  have re: "read_entries page_wifi5 (unpack_states bitmap_w) 0 [] w =
      Some (Inr [dec_wifi], ns_add [PyInt 1 \<mapsto> ''wifi''] w)"
    by (subst read_entries_unfold)
       (simp add: NUM_ENTRIES_def ENTRY_SIZE_def Empty_def s slot dec_wifi_def skip_w[unfolded One_nat_def])
  show ?thesis
    by (simp add: NVSPage_init_active[OF h _ hdr5(1) b] re hdr5)
qed

lemma page_lens [simp]:
  "length page_span0 = 4096" "length page_wifi5 = 4096" "length page_k2 = 4096"
  "length page_badtag = 4096" "length page_state1 = 4096" "length page_junk = 4096"
  "length page_blob = 4096" "length page_str = 4096" "length page_two = 4096"
  by (simp_all add: page_span0_def page_wifi5_def page_k2_def page_badtag_def page_state1_def
      page_junk_def page_blob_def page_str_def page_two_def)

lemma page_addrs_4096: "page_addrs 4096 = [0]"
  by (simp add: page_addrs_def PAGE_SIZE_def)

lemma page_addrs_8192: "page_addrs 8192 = [0, 4096]"
  by (simp add: page_addrs_def PAGE_SIZE_def upt_rec)

lemma page_k2_init:
  "NVSPage_init page_k2 w =
     Some (Inr \<lparr>p_state = Active, p_seqNum = 2, p_version = 254, p_crc = 0, p_entries = [dec_k7]\<rparr>, w)"
proof -
  have h: "slice page_k2 0 32 = hdr_active2" and b: "slice page_k2 32 64 = bitmap_w"
    by (simp_all add: page_k2_def slice_def)
  have s: "unpack_states bitmap_w ! 0 = 2" by (simp add: states_w)
  have slot: "read_slot page_k2 64 2 w = (Inr dec_k7, w)"
    by (simp add: read_slot_def page_k2_def slice_def ENTRY_SIZE_def init_k7)
       (simp add: dec_k7_def)
  have re: "read_entries page_k2 (unpack_states bitmap_w) 0 [] w = Some (Inr [dec_k7], w)"
    by (subst read_entries_unfold)
       (simp add: NUM_ENTRIES_def ENTRY_SIZE_def Empty_def s slot dec_k7_def skip_w[unfolded One_nat_def])
  show ?thesis
    by (simp add: NVSPage_init_active[OF h _ hdr2(1) b] re hdr2)
qed

lemma parse_5_2:
  "parse_pages (page_wifi5 @ page_k2) (page_addrs (length (page_wifi5 @ page_k2))) [] w =
     Some (Inr [\<lparr>p_state = Active, p_seqNum = 5, p_version = 254, p_crc = 0, p_entries = [dec_wifi]\<rparr>,
                \<lparr>p_state = Active, p_seqNum = 2, p_version = 254, p_crc = 0, p_entries = [dec_k7]\<rparr>],
           ns_add [PyInt 1 \<mapsto> ''wifi''] w)"
  by (simp add: page_addrs_8192 slice_def PAGE_SIZE_def page_wifi5_init page_k2_init)

lemma parse_2_5:
  "parse_pages (page_k2 @ page_wifi5) (page_addrs (length (page_k2 @ page_wifi5))) [] w =
     Some (Inr [\<lparr>p_state = Active, p_seqNum = 2, p_version = 254, p_crc = 0, p_entries = [dec_k7]\<rparr>,
                \<lparr>p_state = Active, p_seqNum = 5, p_version = 254, p_crc = 0, p_entries = [dec_wifi]\<rparr>],
           ns_add [PyInt 1 \<mapsto> ''wifi''] w)"
  by (simp add: page_addrs_8192 slice_def PAGE_SIZE_def page_wifi5_init page_k2_init)

lemma str_k7: "NVSEntry_str (ns_add [PyInt 1 \<mapsto> ''wifi''] world0) dec_k7 = Inr ''Written,uint8_t,1,wifi,k,7''"
  by (simp add: NVSEntry_str_def dec_k7_def NVSEntryState_name_def Written_def Erased_def
      world0_def str_int_def hexdigit_def)

lemma str_wifi: "NVSEntry_str (ns_add [PyInt 1 \<mapsto> ''wifi''] world0) dec_wifi = Inr ''Written,uint8_t,1,Namespace,wifi,1''"
  by (simp add: NVSEntry_str_def dec_wifi_def NVSEntryState_name_def Written_def Erased_def
      world0_def str_int_def hexdigit_def)

lemma extract_5_2:
  "extractNVSEntries (page_wifi5 @ page_k2) True False world0 =
     Some (([csv_header, ''Written,uint8_t,1,wifi,k,7'' @ [CHR 0x0A],
             ''Written,uint8_t,1,Namespace,wifi,1'' @ [CHR 0x0A]], None),
           ns_add [PyInt 1 \<mapsto> ''wifi''] world0)"
  unfolding extractNVSEntries_def parse_5_2
  by (simp add: str_k7 str_wifi) (simp add: dec_k7_def dec_wifi_def Written_def)

lemma extract_one_page:
  "length pd = 4096 \<Longrightarrow>
   extractNVSEntries pd pW pE w =
     (case NVSPage_init pd w of
        None \<Rightarrow> None
      | Some (Inl x, w') \<Rightarrow> Some (([], Some x), w')
      | Some (Inr page, w') \<Rightarrow>
          Some (write_entries w' pW pE
                  (if p_state page = Active \<or> p_state page = Full then p_entries page else [])
                  [csv_header], w'))"
  by (simp add: extractNVSEntries_def page_addrs_4096 slice_def PAGE_SIZE_def
      split: option.split sum.split prod.split)

lemma k2_alone:
  "extractNVSEntries page_k2 True False world0 = Some (([csv_header], Some KeyError), world0)"
proof -
  have s: "NVSEntry_str world0 dec_k7 = Inl KeyError"
    by (simp add: NVSEntry_str_def dec_k7_def NVSEntryState_name_def Written_def Erased_def
        world0_def)
  show ?thesis
    by (simp add: s extract_one_page page_k2_init) (simp add: dec_k7_def Written_def)
qed

lemma k2_after_wifi:
  "extractNVSEntries page_k2 True False (ns_add [PyInt 1 \<mapsto> ''wifi''] world0) =
     Some (([csv_header, ''Written,uint8_t,1,wifi,k,7'' @ [CHR 0x0A]], None),
           ns_add [PyInt 1 \<mapsto> ''wifi''] world0)"
  by (simp add: extract_one_page page_k2_init str_k7) (simp add: dec_k7_def Written_def)

lemma wifi5_alone:
  "extractNVSEntries page_wifi5 True False world0 =
     Some (([csv_header, ''Written,uint8_t,1,Namespace,wifi,1'' @ [CHR 0x0A]], None),
           ns_add [PyInt 1 \<mapsto> ''wifi''] world0)"
  by (simp add: extract_one_page page_wifi5_init str_wifi) (simp add: dec_wifi_def Written_def)

section \<open>The claims\<close>

text \<open>
  C10, as stated, fails: the scan is not a function of the buffer alone. The class
  attribute \<open>NVSEntry.namespaces\<close> is never reset, so the same one-page buffer gives the
  header and \<open>KeyError\<close> in a fresh interpreter, and the header and a line after a scan
  of another buffer that binds namespace 1.
\<close>

theorem C10_counterexample:
  "extractNVSEntries page_k2 True False world0 = Some (([csv_header], Some KeyError), world0)
   \<and> extractNVSEntries page_wifi5 True False world0 =
       Some (([csv_header, ''Written,uint8_t,1,Namespace,wifi,1'' @ [CHR 0x0A]], None),
             ns_add [PyInt 1 \<mapsto> ''wifi''] world0)
   \<and> extractNVSEntries page_k2 True False (ns_add [PyInt 1 \<mapsto> ''wifi''] world0) =
       Some (([csv_header, ''Written,uint8_t,1,wifi,k,7'' @ [CHR 0x0A]], None),
             ns_add [PyInt 1 \<mapsto> ''wifi''] world0)"
  using k2_alone wifi5_alone k2_after_wifi by (intro conjI)

text \<open>
  C10, amended. Scanning the same buffer again, in the world that the first scan leaves
  behind, gives the same writes to the output file, the same exception if any, and the
  same namespace table: the bindings a scan adds do not depend on the table it starts
  from.
\<close>

theorem C10_rescan_same_output:
  assumes "extractNVSEntries imageData printWritten printErased w = Some (out, w1)"
  shows "extractNVSEntries imageData printWritten printErased w1 = Some (out, w1)"
  using assms by (rule extract_again)

theorem C10_rescan_same_output_witness:
  "extractNVSEntries (page_wifi5 @ page_k2) True False world0 =
     Some (([csv_header, ''Written,uint8_t,1,wifi,k,7'' @ [CHR 0x0A],
             ''Written,uint8_t,1,Namespace,wifi,1'' @ [CHR 0x0A]], None),
           ns_add [PyInt 1 \<mapsto> ''wifi''] world0)
   \<and> extractNVSEntries (page_wifi5 @ page_k2) True False (ns_add [PyInt 1 \<mapsto> ''wifi''] world0) =
     Some (([csv_header, ''Written,uint8_t,1,wifi,k,7'' @ [CHR 0x0A],
             ''Written,uint8_t,1,Namespace,wifi,1'' @ [CHR 0x0A]], None),
           ns_add [PyInt 1 \<mapsto> ''wifi''] world0)"
  using C10_rescan_same_output [OF extract_5_2] extract_5_2 by simp


lemma init_span0: "NVSEntry_init entry_span0 2 w = (Inr (dec_k7\<lparr>e_span := 0\<rparr>), w)"
  by (simp add: NVSEntry_init_def entry_span0_def unpack_check_def slice_def NVSDataType_of_def
      decode_utf8_def rstrip0_def byte_char_def char_of_def bit_iff_odd Empty_def Let_def dec_k7_def)

lemma init_badtag: "NVSEntry_init entry_badtag st w = (Inl ValueError, w)"
  by (simp add: NVSEntry_init_def entry_badtag_def unpack_check_def slice_def NVSDataType_of_def)

lemma page_span0_init: "NVSPage_init page_span0 w = None"
proof -
  have h: "slice page_span0 0 32 = hdr_active5" and b: "slice page_span0 32 64 = bitmap_w"
    by (simp_all add: page_span0_def slice_def)
  have s: "unpack_states bitmap_w ! 0 = 2" by (simp add: states_w)
  have slot: "read_slot page_span0 ((0 + 2) * ENTRY_SIZE) (unpack_states bitmap_w ! 0) w
                = (Inr (dec_k7\<lparr>e_span := 0\<rparr>), ns_add Map.empty w)" for w
    by (simp add: s read_slot_def page_span0_def slice_def ENTRY_SIZE_def init_span0)
       (simp add: dec_k7_def)
  have re: "read_entries page_span0 (unpack_states bitmap_w) 0 [] w = None"
    by (rule read_entries_span0[OF _ _ slot]) (simp_all add: NUM_ENTRIES_def s Empty_def)
  show ?thesis
    by (simp add: NVSPage_init_active[OF h _ hdr5(1) b] re)
qed

lemma page_badtag_init: "NVSPage_init page_badtag w = Some (Inl ValueError, w)"
proof -
  have h: "slice page_badtag 0 32 = hdr_active5" and b: "slice page_badtag 32 64 = bitmap_w"
    by (simp_all add: page_badtag_def slice_def)
  have s: "unpack_states bitmap_w ! 0 = 2" by (simp add: states_w)
  have slot: "read_slot page_badtag 64 2 w = (Inl ValueError, w)"
    by (simp add: read_slot_def page_badtag_def slice_def ENTRY_SIZE_def init_badtag)
  have re: "read_entries page_badtag (unpack_states bitmap_w) 0 [] w = Some (Inl ValueError, w)"
    by (subst read_entries_unfold)
       (simp add: NUM_ENTRIES_def ENTRY_SIZE_def Empty_def s slot)
  show ?thesis
    by (simp add: NVSPage_init_active[OF h _ hdr5(1) b] re)
qed

text \<open>
  C2. A slot whose type tag is outside the enumeration: \<open>NVSDataType(datatype)\<close> raises
  \<open>ValueError\<close> before the \<open>match\<close> statement is reached. The exception leaves
  \<open>NVSEntry.__init__\<close>, \<open>NVSPage.__init__\<close> and \<open>extractNVSEntries\<close>: no entry is
  produced, no warning is logged, no further slot is decoded and nothing is written.
\<close>

theorem C2_unknown_tag_raises:
  "NVSEntry_init entry_badtag Written world0 = (Inl ValueError, world0)
   \<and> NVSPage_init page_badtag world0 = Some (Inl ValueError, world0)
   \<and> extractNVSEntries page_badtag True True world0 = Some (([], Some ValueError), world0)"
  by (simp add: init_badtag page_badtag_init extract_one_page)

text \<open>
  C1, as stated, fails: on a page whose slot 0 is Written and stores span 0 the loop of
  \<open>NVSPage.__init__\<close> decodes slot 0 again and again, and neither the page decoder nor
  the scan returns.
\<close>

theorem C1_counterexample:
  "NVSPage_init page_span0 world0 = None
   \<and> extractNVSEntries page_span0 True False world0 = None"
  by (simp add: page_span0_init extract_one_page)


lemma page_two_init:
  "NVSPage_init page_two w =
     Some (Inr \<lparr>p_state = Active, p_seqNum = 5, p_version = 254, p_crc = 0,
                 p_entries = [dec_wifi, dec_k7]\<rparr>,
           ns_add [PyInt 1 \<mapsto> ''wifi''] w)"
proof -
  have h: "slice page_two 0 32 = hdr_active5" and b: "slice page_two 32 64 = bitmap_ww"
    by (simp_all add: page_two_def slice_def)
  have s: "unpack_states bitmap_ww ! 0 = 2" "unpack_states bitmap_ww ! Suc 0 = 2"
    by (simp_all add: states_ww)
  have slot0: "read_slot page_two 64 2 w = (Inr dec_wifi, ns_add [PyInt 1 \<mapsto> ''wifi''] w)" for w
    by (simp add: read_slot_def page_two_def slice_def ENTRY_SIZE_def init_wifi)
       (simp add: dec_wifi_def)
  have slot1: "read_slot page_two 96 2 w = (Inr dec_k7, w)" for w
    by (simp add: read_slot_def page_two_def slice_def ENTRY_SIZE_def init_k7)
       (simp add: dec_k7_def)
  have re1: "read_entries page_two (unpack_states bitmap_ww) (Suc 0) ents w =
      Some (Inr (ents @ [dec_k7]), w)" for ents w
    by (subst read_entries_unfold)
       (simp add: NUM_ENTRIES_def ENTRY_SIZE_def Empty_def s slot1 dec_k7_def skip_ww[unfolded numeral_2_eq_2])
  have re: "read_entries page_two (unpack_states bitmap_ww) 0 [] w =
      Some (Inr [dec_wifi, dec_k7], ns_add [PyInt 1 \<mapsto> ''wifi''] w)"
    by (subst read_entries_unfold)
       (simp add: NUM_ENTRIES_def ENTRY_SIZE_def Empty_def s slot0 dec_wifi_def re1)
  show ?thesis
    by (simp add: NVSPage_init_active[OF h _ hdr5(1) b] re hdr5)
qed

lemma walk_step_read_entries:
  assumes "walk_step pd es s s'"
  shows "(case s of (n, ents, w) \<Rightarrow> read_entries pd es n ents w)
       = (case s' of (n, ents, w) \<Rightarrow> read_entries pd es n ents w)"
  using assms
proof cases
  case (skip n ents w)
  then show ?thesis by (simp add: read_entries_skip)
next
  case (entry n w e w' ents)
  then show ?thesis using read_entries_entry[of n es pd w e w' ents] by simp
qed

lemma walk_steps_read_entries:
  assumes "rtranclp (walk_step pd es) s s'"
  shows "(case s of (n, ents, w) \<Rightarrow> read_entries pd es n ents w)
       = (case s' of (n, ents, w) \<Rightarrow> read_entries pd es n ents w)"
  using assms
proof (induction rule: rtranclp_induct)
  case base
  show ?case ..
next
  case (step y z)
  from step.IH walk_step_read_entries[OF step.hyps(2)] show ?case by (rule trans)
qed

lemma read_entries_None_stalls:
  assumes "read_entries pd es n ents w = None"
  shows "\<exists>k ents1 w1 e w2. rtranclp (walk_step pd es) (n, ents, w) (k, ents1, w1)
           \<and> k < NUM_ENTRIES \<and> es ! k \<noteq> Empty
           \<and> read_slot pd ((k + 2) * ENTRY_SIZE) (es ! k) w1 = (Inr e, w2) \<and> e_span e = 0"
  using assms
proof (induction "NUM_ENTRIES - n" arbitrary: n ents w rule: less_induct)
  case less
  let ?Q = "\<lambda>n ents w k ents1 w1 e w2. rtranclp (walk_step pd es) (n, ents, w) (k, ents1, w1)
           \<and> k < NUM_ENTRIES \<and> es ! k \<noteq> Empty
           \<and> read_slot pd ((k + 2) * ENTRY_SIZE) (es ! k) w1 = (Inr e, w2) \<and> e_span e = 0"
  have n: "n < NUM_ENTRIES"
  proof (rule ccontr)
    assume "\<not> n < NUM_ENTRIES"
    from read_entries_done[OF this] less.prems show False by simp
  qed
  show ?case
  proof (cases "es ! n = Empty")
    case True
    have m: "NUM_ENTRIES - (n + 1) < NUM_ENTRIES - n" using n by simp
    from less.prems have "read_entries pd es (n + 1) ents w = None"
      by (simp add: read_entries_skip[OF n True])
    from less.hyps[OF m this] obtain k ents1 w1 e w2 where q: "?Q (n + 1) ents w k ents1 w1 e w2"
      by blast
    have "walk_step pd es (n, ents, w) (n + 1, ents, w)" using n True by (rule walk_step.skip)
    with q have "?Q n ents w k ents1 w1 e w2" by (simp add: converse_rtranclp_into_rtranclp)
    then show ?thesis by (intro exI)
  next
    case st: False
    obtain r w' where slot: "read_slot pd ((n + 2) * ENTRY_SIZE) (es ! n) w = (r, w')"
      by (cases "read_slot pd ((n + 2) * ENTRY_SIZE) (es ! n) w")
    show ?thesis
    proof (cases r)
      case (Inl x)
      with less.prems read_entries_raise[OF n st slot[unfolded Inl]] show ?thesis by simp
    next
      case (Inr e)
      show ?thesis
      proof (cases "e_span e = 0")
        case True
        have "?Q n ents w n ents w e w'" using n st slot[unfolded Inr] True by simp
        then show ?thesis by (intro exI)
      next
        case False
        then have m: "NUM_ENTRIES - (n + e_span e) < NUM_ENTRIES - n" using n by simp
        from less.prems
        have "read_entries pd es (n + e_span e) (ents @ [e]) w' = None"
          by (simp add: read_entries_entry[OF n st slot[unfolded Inr]])
        from less.hyps[OF m this] obtain k ents1 w1 e1 w2
          where q: "?Q (n + e_span e) (ents @ [e]) w' k ents1 w1 e1 w2" by blast
        have "walk_step pd es (n, ents, w) (n + e_span e, ents @ [e], w')"
          using n st slot[unfolded Inr] by (rule walk_step.entry)
        with q have "?Q n ents w k ents1 w1 e1 w2" by (simp add: converse_rtranclp_into_rtranclp)
        then show ?thesis by (intro exI)
      qed
    qed
  qed
qed

lemma read_entries_None_iff:
  "(read_entries pd es n ents w = None) =
   (\<exists>k ents1 w1 e w2. rtranclp (walk_step pd es) (n, ents, w) (k, ents1, w1)
           \<and> k < NUM_ENTRIES \<and> es ! k \<noteq> Empty
           \<and> read_slot pd ((k + 2) * ENTRY_SIZE) (es ! k) w1 = (Inr e, w2)
           \<and> pd ! ((k + 2) * ENTRY_SIZE + 2) = 0)"
proof
  assume "read_entries pd es n ents w = None"
  from read_entries_None_stalls[OF this] obtain k ents1 w1 e w2 where
    q: "rtranclp (walk_step pd es) (n, ents, w) (k, ents1, w1)"
       "k < NUM_ENTRIES" "es ! k \<noteq> Empty"
       "read_slot pd ((k + 2) * ENTRY_SIZE) (es ! k) w1 = (Inr e, w2)" "e_span e = 0"
    by blast
  from read_slot_Inr(2)[OF q(4)] q(5) have "pd ! ((k + 2) * ENTRY_SIZE + 2) = 0"
    by (simp add: unat_eq_0)
  with q show "\<exists>k ents1 w1 e w2. rtranclp (walk_step pd es) (n, ents, w) (k, ents1, w1)
           \<and> k < NUM_ENTRIES \<and> es ! k \<noteq> Empty
           \<and> read_slot pd ((k + 2) * ENTRY_SIZE) (es ! k) w1 = (Inr e, w2)
           \<and> pd ! ((k + 2) * ENTRY_SIZE + 2) = 0"
    by blast
next
  assume "\<exists>k ents1 w1 e w2. rtranclp (walk_step pd es) (n, ents, w) (k, ents1, w1)
           \<and> k < NUM_ENTRIES \<and> es ! k \<noteq> Empty
           \<and> read_slot pd ((k + 2) * ENTRY_SIZE) (es ! k) w1 = (Inr e, w2)
           \<and> pd ! ((k + 2) * ENTRY_SIZE + 2) = 0"
  then obtain k ents1 w1 e w2 where
    q: "rtranclp (walk_step pd es) (n, ents, w) (k, ents1, w1)"
       "k < NUM_ENTRIES" "es ! k \<noteq> Empty"
       "read_slot pd ((k + 2) * ENTRY_SIZE) (es ! k) w1 = (Inr e, w2)"
       "pd ! ((k + 2) * ENTRY_SIZE + 2) = 0"
    by blast
  from read_slot_Inr(2)[OF q(4)] q(5) have sp: "e_span e = 0" by simp
  from walk_steps_read_entries[OF q(1)]
  have "read_entries pd es n ents w = read_entries pd es k ents1 w1" by simp
  also have "\<dots> = None" using q(2) q(3) q(4) sp by (rule read_entries_stall)
  finally show "read_entries pd es n ents w = None" .
qed

lemma NVSPage_init_None_iff:
  "(NVSPage_init pd w = None) =
   ((le_uint (slice pd 0 4) = Active \<or> le_uint (slice pd 0 4) = Full) \<and> 64 \<le> length pd
    \<and> read_entries pd (unpack_states (slice pd 32 64)) 0 [] w = None)"
proof (cases "64 \<le> length pd")
  case True
  then have h: "unpack_check 32 (slice pd 0 32) = Inr (slice pd 0 32)"
    and b: "unpack_check 32 (slice pd 32 64) = Inr (slice pd 32 64)"
    by (simp_all add: unpack_check_def slice_def)
  have s: "slice (slice pd 0 32) 0 4 = slice pd 0 4" by (simp add: slice_def)
  show ?thesis
    using True by (simp add: NVSPage_init_def h b s Let_def split: option.split sum.split prod.split)
next
  case False
  then have "unpack_check 32 (slice pd 0 32) = Inl StructError
             \<or> unpack_check 32 (slice pd 32 64) = Inl StructError"
    by (auto simp: unpack_check_def slice_def)
  then show ?thesis
    using False by (auto simp: NVSPage_init_def Let_def split: sum.split)
qed

lemma NVSPage_init_None_world:
  "NVSPage_init pd w = None \<Longrightarrow> NVSPage_init pd u = None"
  using NVSPage_init_shape[of pd] by auto

lemma NVSPage_init_Inr_world:
  "NVSPage_init pd w = Some (Inr p, w') \<Longrightarrow> \<exists>u'. NVSPage_init pd u = Some (Inr p, u')"
  using NVSPage_init_shape[of pd] by auto

lemma parse_pages_None_iff:
  "(parse_pages img addrs acc w = None) =
   (\<exists>k<length addrs.
      (\<forall>i<k. \<exists>p u'. NVSPage_init (slice img (addrs ! i) (addrs ! i + PAGE_SIZE)) u = Some (Inr p, u'))
      \<and> NVSPage_init (slice img (addrs ! k) (addrs ! k + PAGE_SIZE)) u = None)"
proof (induction addrs arbitrary: acc w)
  case Nil
  show ?case by simp
next
  case (Cons a addrs)
  let ?R = "\<lambda>addrs k. (\<forall>i<k. \<exists>p u'. NVSPage_init (slice img (addrs ! i) (addrs ! i + PAGE_SIZE)) u
                              = Some (Inr p, u'))
      \<and> NVSPage_init (slice img (addrs ! k) (addrs ! k + PAGE_SIZE)) u = None"
  show ?case
  proof (cases "NVSPage_init (slice img a (a + PAGE_SIZE)) w")
    case None
    from NVSPage_init_None_world[OF None] have "?R (a # addrs) 0" by simp
    then have "\<exists>k<length (a # addrs). ?R (a # addrs) k" by (intro exI[of _ 0]) simp
    with None show ?thesis by simp
  next
    case (Some rw)
    obtain r w' where rw: "rw = (r, w')" by (cases rw)
    have nn: "NVSPage_init (slice img a (a + PAGE_SIZE)) u \<noteq> None"
    proof
      assume "NVSPage_init (slice img a (a + PAGE_SIZE)) u = None"
      from NVSPage_init_None_world[OF this, of w] Some show False by simp
    qed
    show ?thesis
    proof (cases r)
      case (Inl x)
      have "\<not> (\<exists>k<length (a # addrs). ?R (a # addrs) k)"
      proof
        assume "\<exists>k<length (a # addrs). ?R (a # addrs) k"
        then obtain k where k: "k < length (a # addrs)" "?R (a # addrs) k" by blast
        show False
        proof (cases k)
          case 0
          with k nn show False by simp
        next
          case (Suc j)
          with k have "\<exists>p u'. NVSPage_init (slice img a (a + PAGE_SIZE)) u = Some (Inr p, u')"
            by auto
          then obtain p u' where "NVSPage_init (slice img a (a + PAGE_SIZE)) u = Some (Inr p, u')"
            by blast
          from NVSPage_init_Inr_world[OF this, of w] Some rw Inl show False by simp
        qed
      qed
      with Some rw Inl show ?thesis by simp
    next
      case (Inr p)
      from Some rw Inr have pw: "NVSPage_init (slice img a (a + PAGE_SIZE)) w = Some (Inr p, w')"
        by simp
      from NVSPage_init_Inr_world[OF pw, of u]
      have pu: "\<exists>p u'. NVSPage_init (slice img a (a + PAGE_SIZE)) u = Some (Inr p, u')" by blast
      have "(\<exists>k<length (a # addrs). ?R (a # addrs) k) = (\<exists>k<length addrs. ?R addrs k)"
      proof
        assume "\<exists>k<length (a # addrs). ?R (a # addrs) k"
        then obtain k where k: "k < length (a # addrs)" "?R (a # addrs) k" by blast
        show "\<exists>k<length addrs. ?R addrs k"
        proof (cases k)
          case 0
          with k nn show ?thesis by simp
        next
          case (Suc j)
          with k have "j < length addrs" by simp
          moreover from k Suc have "?R addrs j" by auto
          ultimately show ?thesis by blast
        qed
      next
        assume "\<exists>k<length addrs. ?R addrs k"
        then obtain k where k: "k < length addrs" "?R addrs k" by blast
        have "?R (a # addrs) (Suc k)"
        proof (intro conjI allI impI)
          fix i assume "i < Suc k"
          then show "\<exists>p u'. NVSPage_init (slice img ((a # addrs) ! i) ((a # addrs) ! i + PAGE_SIZE)) u
                        = Some (Inr p, u')"
            using pu k(2) by (cases i) auto
        next
          show "NVSPage_init (slice img ((a # addrs) ! Suc k) ((a # addrs) ! Suc k + PAGE_SIZE)) u = None"
            using k(2) by simp
        qed
        with k(1) show "\<exists>k<length (a # addrs). ?R (a # addrs) k"
          by (intro exI[of _ "Suc k"]) simp
      qed
      with Cons.IH pw show ?thesis by simp
    qed
  qed
qed

lemma extract_None_iff:
  "(extractNVSEntries img pW pE w = None) =
   (parse_pages img (page_addrs (length img)) [] w = None)"
  by (simp add: extractNVSEntries_def split: option.split sum.split prod.split)


lemma page_skip0_len [simp]: "length page_skip0 = 4096"
  by (simp add: page_skip0_def)

lemma page_skip0_init:
  "NVSPage_init page_skip0 w =
     Some (Inr \<lparr>p_state = Active, p_seqNum = 5, p_version = 254, p_crc = 0,
                 p_entries = [dec_k7\<lparr>e_span := 2\<rparr>]\<rparr>, w)"
proof -
  have h: "slice page_skip0 0 32 = hdr_active5" and b: "slice page_skip0 32 64 = bitmap_ww"
    by (simp_all add: page_skip0_def slice_def)
  have s: "unpack_states bitmap_ww ! 0 = 2" by (simp add: states_ww)
  have slot: "read_slot page_skip0 64 2 w = (Inr (dec_k7\<lparr>e_span := 2\<rparr>), w)"
    by (simp add: read_slot_def page_skip0_def slice_def ENTRY_SIZE_def init_span2 Empty_def)
       (simp add: dec_k7_def)
  have re: "read_entries page_skip0 (unpack_states bitmap_ww) 0 [] w =
      Some (Inr [dec_k7\<lparr>e_span := 2\<rparr>], w)"
    by (subst read_entries_unfold)
       (simp add: NUM_ENTRIES_def ENTRY_SIZE_def Empty_def s slot dec_k7_def skip_ww[unfolded numeral_2_eq_2])
  show ?thesis
    by (simp add: NVSPage_init_active[OF h _ hdr5(1) b] re hdr5)
qed

lemma page_skip0_slot1:
  "unpack_states (slice page_skip0 32 64) ! 1 = Written" "page_skip0 ! ((1 + 2) * ENTRY_SIZE + 2) = 0"
proof -
  have b: "slice page_skip0 32 64 = bitmap_ww"
    by (simp add: page_skip0_def slice_def)
  show "unpack_states (slice page_skip0 32 64) ! 1 = Written"
    by (simp add: b states_ww Written_def)
  show "page_skip0 ! ((1 + 2) * ENTRY_SIZE + 2) = 0"
    by (simp add: page_skip0_def ENTRY_SIZE_def nth_append entry_span0_def)
qed

lemma page_span0_slot0:
  "read_slot page_span0 ((0 + 2) * ENTRY_SIZE) (unpack_states (slice page_span0 32 64) ! 0) world0
     = (Inr (dec_k7\<lparr>e_span := 0\<rparr>), world0)"
  "unpack_states (slice page_span0 32 64) ! 0 = Written"
  "page_span0 ! ((0 + 2) * ENTRY_SIZE + 2) = 0"
proof -
  have b: "slice page_span0 32 64 = bitmap_w"
    by (simp add: page_span0_def slice_def)
  have s: "unpack_states bitmap_w ! 0 = 2" by (simp add: states_w)
  show "read_slot page_span0 ((0 + 2) * ENTRY_SIZE) (unpack_states (slice page_span0 32 64) ! 0) world0
     = (Inr (dec_k7\<lparr>e_span := 0\<rparr>), world0)"
    by (simp add: b s read_slot_def page_span0_def slice_def ENTRY_SIZE_def init_span0)
       (simp add: dec_k7_def)
  show "unpack_states (slice page_span0 32 64) ! 0 = Written"
    by (simp add: b s Written_def)
  show "page_span0 ! ((0 + 2) * ENTRY_SIZE + 2) = 0"
    by (simp add: page_span0_def ENTRY_SIZE_def nth_append entry_span0_def)
qed

text \<open>
  C1, amended. The cursor advances by the span byte as the slot stores it, with no lower
  bound. The walk over a page fails to return exactly when it arrives at a slot that the
  bitmap marks as non-empty, that decodes to an entry, and whose span byte is 0; slots
  that the walk steps over do not matter. The page decoder fails to return exactly when
  the page is Active or Full, has its header and bitmap, and the walk does not return; the
  scan fails to return exactly when some page does, all pages before it being decoded.
\<close>

theorem C1_walk_returns_iff_no_span0:
  "(read_entries pd es 0 [] w = None) =
     (\<exists>k ents1 w1 e w2. rtranclp (walk_step pd es) (0, [], w) (k, ents1, w1)
         \<and> k < NUM_ENTRIES \<and> es ! k \<noteq> Empty
         \<and> read_slot pd ((k + 2) * ENTRY_SIZE) (es ! k) w1 = (Inr e, w2)
         \<and> pd ! ((k + 2) * ENTRY_SIZE + 2) = 0)
   \<and> (NVSPage_init pd w = None) =
       ((le_uint (slice pd 0 4) = Active \<or> le_uint (slice pd 0 4) = Full) \<and> 64 \<le> length pd
        \<and> read_entries pd (unpack_states (slice pd 32 64)) 0 [] w = None)
   \<and> (extractNVSEntries imageData printWritten printErased w = None) =
       (\<exists>k<length (page_addrs (length imageData)).
          (\<forall>i<k. \<exists>p w'. NVSPage_init (slice imageData (page_addrs (length imageData) ! i)
                                         (page_addrs (length imageData) ! i + PAGE_SIZE)) w
                            = Some (Inr p, w'))
          \<and> NVSPage_init (slice imageData (page_addrs (length imageData) ! k)
                            (page_addrs (length imageData) ! k + PAGE_SIZE)) w = None)
   \<and> (n < NUM_ENTRIES \<and> es ! n \<noteq> Empty
        \<and> read_slot pd ((n + 2) * ENTRY_SIZE) (es ! n) w = (Inr e, w')
        \<longrightarrow> read_entries pd es n ents w =
              read_entries pd es (n + unat (pd ! ((n + 2) * ENTRY_SIZE + 2))) (ents @ [e]) w')"
proof (intro conjI impI)
  show "(read_entries pd es 0 [] w = None) =
     (\<exists>k ents1 w1 e w2. rtranclp (walk_step pd es) (0, [], w) (k, ents1, w1)
         \<and> k < NUM_ENTRIES \<and> es ! k \<noteq> Empty
         \<and> read_slot pd ((k + 2) * ENTRY_SIZE) (es ! k) w1 = (Inr e, w2)
         \<and> pd ! ((k + 2) * ENTRY_SIZE + 2) = 0)"
    by (rule read_entries_None_iff)
  show "(NVSPage_init pd w = None) =
       ((le_uint (slice pd 0 4) = Active \<or> le_uint (slice pd 0 4) = Full) \<and> 64 \<le> length pd
        \<and> read_entries pd (unpack_states (slice pd 32 64)) 0 [] w = None)"
    by (rule NVSPage_init_None_iff)
  show "(extractNVSEntries imageData printWritten printErased w = None) =
       (\<exists>k<length (page_addrs (length imageData)).
          (\<forall>i<k. \<exists>p w'. NVSPage_init (slice imageData (page_addrs (length imageData) ! i)
                                         (page_addrs (length imageData) ! i + PAGE_SIZE)) w
                            = Some (Inr p, w'))
          \<and> NVSPage_init (slice imageData (page_addrs (length imageData) ! k)
                            (page_addrs (length imageData) ! k + PAGE_SIZE)) w = None)"
    unfolding extract_None_iff by (rule parse_pages_None_iff)
next
  assume a: "n < NUM_ENTRIES \<and> es ! n \<noteq> Empty
        \<and> read_slot pd ((n + 2) * ENTRY_SIZE) (es ! n) w = (Inr e, w')"
  then have "e_span e = unat (pd ! ((n + 2) * ENTRY_SIZE + 2))"
    using read_slot_Inr(2) by blast
  with a show "read_entries pd es n ents w =
      read_entries pd es (n + unat (pd ! ((n + 2) * ENTRY_SIZE + 2))) (ents @ [e]) w'"
    using read_entries_entry[of n es pd w e w' ents] by simp
qed

theorem C1_walk_returns_iff_no_span0_witness:
  "rtranclp (walk_step page_span0 (unpack_states (slice page_span0 32 64)))
      (0, [], world0) (0, [], world0)
   \<and> 0 < NUM_ENTRIES \<and> unpack_states (slice page_span0 32 64) ! 0 = Written
   \<and> read_slot page_span0 ((0 + 2) * ENTRY_SIZE) (unpack_states (slice page_span0 32 64) ! 0) world0
        = (Inr (dec_k7\<lparr>e_span := 0\<rparr>), world0)
   \<and> page_span0 ! ((0 + 2) * ENTRY_SIZE + 2) = 0
   \<and> read_entries page_span0 (unpack_states (slice page_span0 32 64)) 0 [] world0 = None
   \<and> NVSPage_init page_span0 world0 = None
   \<and> extractNVSEntries page_span0 True False world0 = None
   \<and> unpack_states (slice page_skip0 32 64) ! 1 = Written
   \<and> page_skip0 ! ((1 + 2) * ENTRY_SIZE + 2) = 0
   \<and> NVSPage_init page_skip0 world0 =
       Some (Inr \<lparr>p_state = Active, p_seqNum = 5, p_version = 254, p_crc = 0,
                   p_entries = [dec_k7\<lparr>e_span := 2\<rparr>]\<rparr>, world0)
   \<and> read_entries page_skip0 (unpack_states (slice page_skip0 32 64)) 0 [] world0 \<noteq> None"
proof -
  note t0 = C1_walk_returns_iff_no_span0
    [of page_span0 "unpack_states (slice page_span0 32 64)" world0 page_span0 True False]
  have r: "rtranclp (walk_step page_span0 (unpack_states (slice page_span0 32 64)))
      (0, [], world0) (0, [], world0)" by (rule rtranclp.rtrancl_refl)
  have n: "0 < NUM_ENTRIES" by (simp add: NUM_ENTRIES_def)
  have ne: "unpack_states (slice page_span0 32 64) ! 0 \<noteq> Empty"
    by (simp add: page_span0_slot0(2) Written_def Empty_def)
  have re: "read_entries page_span0 (unpack_states (slice page_span0 32 64)) 0 [] world0 = None"
    using t0[THEN conjunct1] r n ne page_span0_slot0(1,3) by blast
  have st: "le_uint (slice page_span0 0 4) = Active"
    using hdr5(1) by (simp add: page_span0_def slice_def)
  have pg: "NVSPage_init page_span0 world0 = None"
    using t0[THEN conjunct2, THEN conjunct1] re st by simp
  have rhs: "\<exists>k<length (page_addrs (length page_span0)).
          (\<forall>i<k. \<exists>p w'. NVSPage_init (slice page_span0 (page_addrs (length page_span0) ! i)
                                         (page_addrs (length page_span0) ! i + PAGE_SIZE)) world0
                            = Some (Inr p, w'))
          \<and> NVSPage_init (slice page_span0 (page_addrs (length page_span0) ! k)
                            (page_addrs (length page_span0) ! k + PAGE_SIZE)) world0 = None"
    by (rule exI[of _ 0]) (simp add: page_addrs_4096 slice_def PAGE_SIZE_def pg)
  have ex: "extractNVSEntries page_span0 True False world0 = None"
    by (rule iffD2[OF t0[THEN conjunct2, THEN conjunct2, THEN conjunct1] rhs])
  note t1 = C1_walk_returns_iff_no_span0
    [of page_skip0 "unpack_states (slice page_skip0 32 64)" world0 page_skip0 True False]
  have st1: "le_uint (slice page_skip0 0 4) = Active"
    using hdr5(1) by (simp add: page_skip0_def slice_def)
  have "read_entries page_skip0 (unpack_states (slice page_skip0 32 64)) 0 [] world0 \<noteq> None"
    using t1[THEN conjunct2, THEN conjunct1] page_skip0_init[of world0] st1 by simp
  with r n page_span0_slot0 re pg ex page_skip0_slot1 page_skip0_init[of world0]
  show ?thesis by (intro conjI)
qed


subsection \<open>Physical order of the pages and slot order of the entries\<close>

lemma NVSPage_init_fst:
  "NVSPage_init pd w = Some (r, w') \<Longrightarrow> map_option fst (NVSPage_init pd u) = Some r"
  using NVSPage_init_shape[of pd] by auto

lemma read_entries_slot_order:
  assumes "read_entries pd es n ents w = Some (Inr out, w')"
  shows "\<exists>slots. sorted_wrt (<) slots \<and> (\<forall>s\<in>set slots. n \<le> s \<and> s < NUM_ENTRIES)
           \<and> length out = length ents + length slots \<and> take (length ents) out = ents
           \<and> (\<forall>i<length slots.
                 fst (read_slot pd ((slots ! i + 2) * ENTRY_SIZE) (es ! (slots ! i)) u)
                   = Inr (out ! (length ents + i)))"
  using assms
proof (induction "NUM_ENTRIES - n" arbitrary: n ents w rule: less_induct)
  case less
  let ?Q = "\<lambda>n ents slots. sorted_wrt (<) slots \<and> (\<forall>s\<in>set slots. n \<le> s \<and> s < NUM_ENTRIES)
           \<and> length out = length ents + length slots \<and> take (length ents) out = ents
           \<and> (\<forall>i<length slots.
                 fst (read_slot pd ((slots ! i + 2) * ENTRY_SIZE) (es ! (slots ! i)) u)
                   = Inr (out ! (length ents + i)))"
  show ?case
  proof (cases "n < NUM_ENTRIES")
    case False
    with less.prems have "out = ents" by (simp add: read_entries_done)
    then have "?Q n ents []" by simp
    then show ?thesis by (intro exI)
  next
    case n: True
    show ?thesis
    proof (cases "es ! n = Empty")
      case True
      have m: "NUM_ENTRIES - (n + 1) < NUM_ENTRIES - n" using n by simp
      from less.prems have "read_entries pd es (n + 1) ents w = Some (Inr out, w')"
        by (simp add: read_entries_skip[OF n True])
      from less.hyps[OF m this] obtain slots where "?Q (n + 1) ents slots" by blast
      then have "?Q n ents slots" by auto
      then show ?thesis by (intro exI)
    next
      case st: False
      obtain r m where slot: "\<And>w. read_slot pd ((n + 2) * ENTRY_SIZE) (es ! n) w = (r, ns_add m w)"
        using read_slot_world by blast
      show ?thesis
      proof (cases r)
        case (Inl x)
        with less.prems read_entries_raise[OF n st slot[unfolded Inl]] show ?thesis by simp
      next
        case (Inr e)
        have sp: "e_span e \<noteq> 0"
        proof
          assume "e_span e = 0"
          from read_entries_span0[OF n st slot[unfolded Inr] this] less.prems
          show False by simp
        qed
        then have m: "NUM_ENTRIES - (n + e_span e) < NUM_ENTRIES - n" using n by simp
        from less.prems
        have "read_entries pd es (n + e_span e) (ents @ [e]) (ns_add m w) = Some (Inr out, w')"
          by (simp add: read_entries_entry[OF n st slot[unfolded Inr]])
        from less.hyps[OF m this] obtain slots where q: "?Q (n + e_span e) (ents @ [e]) slots"
          by blast
        from q have t: "take (Suc (length ents)) out = ents @ [e]" and
          l: "length out = Suc (length ents) + length slots" by simp_all
        from t l have o: "out ! length ents = e"
          by (metis lessI nth_append_length nth_take)
        have f0: "fst (read_slot pd ((n + 2) * ENTRY_SIZE) (es ! n) u) = Inr e"
          unfolding slot[of u] Inr by (rule fst_conv)
        have "take (length ents) (take (Suc (length ents)) out) = take (length ents) (ents @ [e])"
          by (simp only: t)
        then have t': "take (length ents) out = ents" by simp
        have nth: "fst (read_slot pd (((n # slots) ! i + 2) * ENTRY_SIZE) (es ! ((n # slots) ! i)) u)
                   = Inr (out ! (length ents + i))" if "i < length (n # slots)" for i
        proof (cases i)
          case 0
          from f0 o show ?thesis unfolding 0 by simp
        next
          case (Suc j)
          with that have "j < length slots" by simp
          with q have "fst (read_slot pd ((slots ! j + 2) * ENTRY_SIZE) (es ! (slots ! j)) u)
                   = Inr (out ! (length (ents @ [e]) + j))" by blast
          then show ?thesis unfolding Suc by simp
        qed
        from q sp have s: "sorted_wrt (<) (n # slots)" "\<forall>s\<in>set (n # slots). n \<le> s \<and> s < NUM_ENTRIES"
          using n by auto
        from s l t' nth have "?Q n ents (n # slots)" by simp
        then show ?thesis by (intro exI)
      qed
    qed
  qed
qed

lemma NVSPage_init_slot_order:
  assumes "NVSPage_init pd w = Some (Inr page, w')"
  shows "\<exists>slots. sorted_wrt (<) slots \<and> (\<forall>s\<in>set slots. s < NUM_ENTRIES)
           \<and> length slots = length (p_entries page)
           \<and> (\<forall>i<length slots.
                 fst (read_slot pd ((slots ! i + 2) * ENTRY_SIZE)
                        (unpack_states (slice pd 32 64) ! (slots ! i)) u)
                   = Inr (p_entries page ! i))"
proof -
  let ?Q = "\<lambda>slots. sorted_wrt (<) slots \<and> (\<forall>s\<in>set slots. s < NUM_ENTRIES)
           \<and> length slots = length (p_entries page)
           \<and> (\<forall>i<length slots.
                 fst (read_slot pd ((slots ! i + 2) * ENTRY_SIZE)
                        (unpack_states (slice pd 32 64) ! (slots ! i)) u)
                   = Inr (p_entries page ! i))"
  have bm: "unpack_check 32 (slice pd 32 64) = Inr b \<Longrightarrow> b = slice pd 32 64" for b
    by (auto simp: unpack_check_def split: if_splits)
  from assms consider (empty) "p_entries page = []"
    | (walk) "read_entries pd (unpack_states (slice pd 32 64)) 0 [] w = Some (Inr (p_entries page), w')"
    by (auto simp: NVSPage_init_def Let_def split: sum.splits if_splits option.splits dest!: bm)
  then show ?thesis
  proof cases
    case empty
    then have "?Q []" by simp
    then show ?thesis by (intro exI)
  next
    case walk
    from read_entries_slot_order[OF walk, where u = u] obtain slots where "?Q slots" by auto
    then show ?thesis by (intro exI)
  qed
qed

lemma parse_pages_physical_order:
  assumes "parse_pages img addrs acc w = Some (Inr pages, w')" and "sorted_wrt (<) addrs"
  shows "\<exists>as. sorted_wrt (<) as \<and> set as \<subseteq> set addrs
           \<and> length pages = length acc + length as \<and> take (length acc) pages = acc
           \<and> (\<forall>i<length as.
                 map_option fst (NVSPage_init (slice img (as ! i) (as ! i + PAGE_SIZE)) u)
                   = Some (Inr (pages ! (length acc + i))))"
  using assms
proof (induction addrs arbitrary: acc w)
  case Nil
  then have "pages = acc" by simp
  then have "sorted_wrt (<) ([]::nat list) \<and> set [] \<subseteq> set ([]::nat list)
           \<and> length pages = length acc + length ([]::nat list) \<and> take (length acc) pages = acc
           \<and> (\<forall>i<length ([]::nat list).
                 map_option fst (NVSPage_init (slice img ([] ! i) ([] ! i + PAGE_SIZE)) u)
                   = Some (Inr (pages ! (length acc + i))))" by simp
  then show ?case by (intro exI)
next
  case (Cons a addrs)
  let ?Q = "\<lambda>addrs acc as. sorted_wrt (<) as \<and> set as \<subseteq> set addrs
           \<and> length pages = length acc + length as \<and> take (length acc) pages = acc
           \<and> (\<forall>i<length as.
                 map_option fst (NVSPage_init (slice img (as ! i) (as ! i + PAGE_SIZE)) u)
                   = Some (Inr (pages ! (length acc + i))))"
  from Cons.prems(1) obtain page w1 where
    p: "NVSPage_init (slice img a (a + PAGE_SIZE)) w = Some (Inr page, w1)"
    and rest: "parse_pages img addrs
            (if p_state page = Active \<or> p_state page = Full then acc @ [page] else acc) w1
          = Some (Inr pages, w')"
    by (auto split: option.splits sum.splits prod.splits)
  from Cons.prems(2) have sa: "sorted_wrt (<) addrs" and lt: "\<forall>b\<in>set addrs. a < b" by simp_all
  show ?case
  proof (cases "p_state page = Active \<or> p_state page = Full")
    case False
    with rest have "parse_pages img addrs acc w1 = Some (Inr pages, w')" by simp
    from Cons.IH[OF this sa] obtain as where "?Q addrs acc as" by blast
    then have "?Q (a # addrs) acc as" by auto
    then show ?thesis by (intro exI)
  next
    case True
    with rest have "parse_pages img addrs (acc @ [page]) w1 = Some (Inr pages, w')" by simp
    from Cons.IH[OF this sa] obtain as where q: "?Q addrs (acc @ [page]) as" by blast
    from q have t: "take (Suc (length acc)) pages = acc @ [page]"
      and l: "length pages = Suc (length acc) + length as" by simp_all
    from t l have o: "pages ! length acc = page"
      by (metis lessI nth_append_length nth_take)
    have "take (length acc) (take (Suc (length acc)) pages) = take (length acc) (acc @ [page])"
      by (simp only: t)
    then have t': "take (length acc) pages = acc" by simp
    have f0: "map_option fst (NVSPage_init (slice img a (a + PAGE_SIZE)) u) = Some (Inr page)"
      by (rule NVSPage_init_fst[OF p])
    have nth: "map_option fst (NVSPage_init (slice img ((a # as) ! i) ((a # as) ! i + PAGE_SIZE)) u)
                   = Some (Inr (pages ! (length acc + i)))" if "i < length (a # as)" for i
    proof (cases i)
      case 0
      then show ?thesis by (simp add: f0 o)
    next
      case (Suc j)
      with that have "j < length as" by simp
      with q have "map_option fst (NVSPage_init (slice img (as ! j) (as ! j + PAGE_SIZE)) u)
                   = Some (Inr (pages ! (length (acc @ [page]) + j)))" by blast
      then show ?thesis by (simp add: Suc)
    qed
    from q lt have s: "sorted_wrt (<) (a # as)" "set (a # as) \<subseteq> set (a # addrs)" by auto
    from s l t' nth have "?Q (a # addrs) acc (a # as)" by simp
    then show ?thesis by (intro exI)
  qed
qed

lemma sorted_page_addrs: "sorted_wrt (<) (page_addrs n)"
  unfolding page_addrs_def
  by (simp add: sorted_wrt_map PAGE_SIZE_def sorted_wrt_mono_rel[OF _ sorted_wrt_upt])


text \<open>
  C5. The writes to the output file are the header line followed by one line per entry
  that passes the filter, up to the first one that does not render, if any. These
  entries are taken page by page in the order of a stable sort by sequence number: the
  sequence numbers of the sorted pages ascend, and the pages of any one sequence number
  keep the order of the retained list. The retained list is in physical order: its pages
  are the decodings of the image at strictly increasing page offsets. Inside a page the
  entry list is in slot order: its entries are the decodings of slots of strictly
  increasing index.
\<close>

theorem C5_output_order:
  assumes "parse_pages imageData (page_addrs (length imageData)) [] w = Some (Inr pages, w')"
  shows "extractNVSEntries imageData printWritten printErased w =
           Some ((csv_header #
                  map (csv_line w')
                    (takeWhile (renders w')
                       (filter (selected printWritten printErased)
                          (concat (map p_entries (sort_key p_seqNum pages))))),
                  if list_all (renders w')
                       (filter (selected printWritten printErased)
                          (concat (map p_entries (sort_key p_seqNum pages))))
                  then None else Some KeyError), w')
         \<and> sorted (map p_seqNum (sort_key p_seqNum pages))
         \<and> filter (\<lambda>p. p_seqNum p = k) (sort_key p_seqNum pages)
             = filter (\<lambda>p. p_seqNum p = k) pages
         \<and> (\<exists>as. sorted_wrt (<) as \<and> set as \<subseteq> set (page_addrs (length imageData))
               \<and> length as = length pages
               \<and> (\<forall>i<length as.
                    map_option fst
                      (NVSPage_init (slice imageData (as ! i) (as ! i + PAGE_SIZE)) u)
                      = Some (Inr (pages ! i))
                    \<and> (\<exists>slots. sorted_wrt (<) slots \<and> (\<forall>s\<in>set slots. s < NUM_ENTRIES)
                          \<and> length slots = length (p_entries (pages ! i))
                          \<and> (\<forall>j<length slots.
                               fst (read_slot (slice imageData (as ! i) (as ! i + PAGE_SIZE))
                                      ((slots ! j + 2) * ENTRY_SIZE)
                                      (unpack_states
                                         (slice (slice imageData (as ! i) (as ! i + PAGE_SIZE)) 32 64)
                                         ! (slots ! j)) u)
                                 = Inr (p_entries (pages ! i) ! j)))))"
proof -
  have a: "extractNVSEntries imageData printWritten printErased w =
           Some ((csv_header #
                  map (csv_line w')
                    (takeWhile (renders w')
                       (filter (selected printWritten printErased)
                          (concat (map p_entries (sort_key p_seqNum pages))))),
                  if list_all (renders w')
                       (filter (selected printWritten printErased)
                          (concat (map p_entries (sort_key p_seqNum pages))))
                  then None else Some KeyError), w')"
    using assms by (simp add: extractNVSEntries_def write_pages_concat write_entries_lines)
  have b: "sorted (map p_seqNum (sort_key p_seqNum pages))" by simp
  have c: "filter (\<lambda>p. p_seqNum p = k) (sort_key p_seqNum pages)
             = filter (\<lambda>p. p_seqNum p = k) pages"
    by (rule sort_key_stable)
  from parse_pages_physical_order[OF assms sorted_page_addrs, where u = u] obtain as where
    s: "sorted_wrt (<) as" and sub: "set as \<subseteq> set (page_addrs (length imageData))"
    and l: "length as = length pages"
    and pg: "\<And>i. i < length as \<Longrightarrow>
          map_option fst (NVSPage_init (slice imageData (as ! i) (as ! i + PAGE_SIZE)) u)
            = Some (Inr (pages ! i))"
    by auto
  have sl: "\<exists>slots. sorted_wrt (<) slots \<and> (\<forall>s\<in>set slots. s < NUM_ENTRIES)
                          \<and> length slots = length (p_entries (pages ! i))
                          \<and> (\<forall>j<length slots.
                               fst (read_slot (slice imageData (as ! i) (as ! i + PAGE_SIZE))
                                      ((slots ! j + 2) * ENTRY_SIZE)
                                      (unpack_states
                                         (slice (slice imageData (as ! i) (as ! i + PAGE_SIZE)) 32 64)
                                         ! (slots ! j)) u)
                                 = Inr (p_entries (pages ! i) ! j))"
    if "i < length as" for i
  proof -
    from pg[OF that] obtain u' where
      "NVSPage_init (slice imageData (as ! i) (as ! i + PAGE_SIZE)) u = Some (Inr (pages ! i), u')"
      by (cases "NVSPage_init (slice imageData (as ! i) (as ! i + PAGE_SIZE)) u") auto
    from NVSPage_init_slot_order[OF this, where u = u] show ?thesis .
  qed
  have inner: "\<forall>i<length as.
                    map_option fst
                      (NVSPage_init (slice imageData (as ! i) (as ! i + PAGE_SIZE)) u)
                      = Some (Inr (pages ! i))
                    \<and> (\<exists>slots. sorted_wrt (<) slots \<and> (\<forall>s\<in>set slots. s < NUM_ENTRIES)
                          \<and> length slots = length (p_entries (pages ! i))
                          \<and> (\<forall>j<length slots.
                               fst (read_slot (slice imageData (as ! i) (as ! i + PAGE_SIZE))
                                      ((slots ! j + 2) * ENTRY_SIZE)
                                      (unpack_states
                                         (slice (slice imageData (as ! i) (as ! i + PAGE_SIZE)) 32 64)
                                         ! (slots ! j)) u)
                                 = Inr (p_entries (pages ! i) ! j)))"
  proof (intro allI impI)
    fix i assume "i < length as"
    from pg[OF this] sl[OF this] show
      "map_option fst
                      (NVSPage_init (slice imageData (as ! i) (as ! i + PAGE_SIZE)) u)
                      = Some (Inr (pages ! i))
                    \<and> (\<exists>slots. sorted_wrt (<) slots \<and> (\<forall>s\<in>set slots. s < NUM_ENTRIES)
                          \<and> length slots = length (p_entries (pages ! i))
                          \<and> (\<forall>j<length slots.
                               fst (read_slot (slice imageData (as ! i) (as ! i + PAGE_SIZE))
                                      ((slots ! j + 2) * ENTRY_SIZE)
                                      (unpack_states
                                         (slice (slice imageData (as ! i) (as ! i + PAGE_SIZE)) 32 64)
                                         ! (slots ! j)) u)
                                 = Inr (p_entries (pages ! i) ! j)))"
      by (rule conjI)
  qed
  have d: "\<exists>as. sorted_wrt (<) as \<and> set as \<subseteq> set (page_addrs (length imageData))
               \<and> length as = length pages
               \<and> (\<forall>i<length as.
                    map_option fst
                      (NVSPage_init (slice imageData (as ! i) (as ! i + PAGE_SIZE)) u)
                      = Some (Inr (pages ! i))
                    \<and> (\<exists>slots. sorted_wrt (<) slots \<and> (\<forall>s\<in>set slots. s < NUM_ENTRIES)
                          \<and> length slots = length (p_entries (pages ! i))
                          \<and> (\<forall>j<length slots.
                               fst (read_slot (slice imageData (as ! i) (as ! i + PAGE_SIZE))
                                      ((slots ! j + 2) * ENTRY_SIZE)
                                      (unpack_states
                                         (slice (slice imageData (as ! i) (as ! i + PAGE_SIZE)) 32 64)
                                         ! (slots ! j)) u)
                                 = Inr (p_entries (pages ! i) ! j))))"
    using s sub l inner by (intro exI[of _ as] conjI)
  from a b c d show ?thesis by (intro conjI)
qed

theorem C5_output_order_witness:
  "parse_pages (page_wifi5 @ page_k2) (page_addrs (length (page_wifi5 @ page_k2))) [] world0 =
     Some (Inr [\<lparr>p_state = Active, p_seqNum = 5, p_version = 254, p_crc = 0, p_entries = [dec_wifi]\<rparr>,
                \<lparr>p_state = Active, p_seqNum = 2, p_version = 254, p_crc = 0, p_entries = [dec_k7]\<rparr>],
           ns_add [PyInt 1 \<mapsto> ''wifi''] world0)
   \<and> extractNVSEntries (page_wifi5 @ page_k2) True False world0 =
       Some (([csv_header, ''Written,uint8_t,1,wifi,k,7'' @ [CHR 0x0A],
               ''Written,uint8_t,1,Namespace,wifi,1'' @ [CHR 0x0A]], None),
             ns_add [PyInt 1 \<mapsto> ''wifi''] world0)"
proof -
  have sel: "selected True False dec_k7" "selected True False dec_wifi"
    by (simp_all add: selected_def dec_k7_def dec_wifi_def Written_def)
  have ren: "renders (ns_add [PyInt 1 \<mapsto> ''wifi''] world0) dec_k7"
    "renders (ns_add [PyInt 1 \<mapsto> ''wifi''] world0) dec_wifi"
    by (simp_all add: renders_def str_k7 str_wifi)
  have lin: "csv_line (ns_add [PyInt 1 \<mapsto> ''wifi''] world0) dec_k7
               = ''Written,uint8_t,1,wifi,k,7'' @ [CHR 0x0A]"
    "csv_line (ns_add [PyInt 1 \<mapsto> ''wifi''] world0) dec_wifi
               = ''Written,uint8_t,1,Namespace,wifi,1'' @ [CHR 0x0A]"
    by (simp_all add: csv_line_def str_k7 str_wifi)
  have srt: "concat (map p_entries (sort_key p_seqNum
      [\<lparr>p_state = Active, p_seqNum = 5, p_version = 254, p_crc = 0, p_entries = [dec_wifi]\<rparr>,
       \<lparr>p_state = Active, p_seqNum = 2, p_version = 254, p_crc = 0, p_entries = [dec_k7]\<rparr>]))
      = [dec_k7, dec_wifi]"
    by simp
  have "extractNVSEntries (page_wifi5 @ page_k2) True False world0 =
       Some ((csv_header #
              map (csv_line (ns_add [PyInt 1 \<mapsto> ''wifi''] world0))
                (takeWhile (renders (ns_add [PyInt 1 \<mapsto> ''wifi''] world0))
                   (filter (selected True False) [dec_k7, dec_wifi])),
              if list_all (renders (ns_add [PyInt 1 \<mapsto> ''wifi''] world0))
                   (filter (selected True False) [dec_k7, dec_wifi])
              then None else Some KeyError),
             ns_add [PyInt 1 \<mapsto> ''wifi''] world0)"
    using C5_output_order [OF parse_5_2 [of world0], of True False 5, unfolded srt]
    by (rule conjunct1)
  then have e: "extractNVSEntries (page_wifi5 @ page_k2) True False world0 =
       Some (([csv_header, ''Written,uint8_t,1,wifi,k,7'' @ [CHR 0x0A],
               ''Written,uint8_t,1,Namespace,wifi,1'' @ [CHR 0x0A]], None),
             ns_add [PyInt 1 \<mapsto> ''wifi''] world0)"
    by (simp add: sel ren lin)
  from parse_5_2 [of world0] e show ?thesis by (intro conjI)
qed

text \<open>
  C3, as stated, fails: an entry of namespace 1 rendered while the table binds only 0
  raises \<open>KeyError\<close>, and the scan of a partition that holds this entry alone ends with
  that exception after the header line.
\<close>

theorem C3_counterexample:
  "NVSEntry_str world0 dec_k7 = Inl KeyError
   \<and> extractNVSEntries page_k2 True False world0 = Some (([csv_header], Some KeyError), world0)"
proof -
  have s: "NVSEntry_str world0 dec_k7 = Inl KeyError"
    by (simp add: NVSEntry_str_def dec_k7_def NVSEntryState_name_def Written_def Erased_def
        world0_def)
  show ?thesis
    by (simp add: s extract_one_page page_k2_init) (simp add: dec_k7_def Written_def)
qed

lemma parse_data_value:
  "parse_data dt data = Inr (sz, v, c) \<Longrightarrow> dt = string_t \<or> dt = blob_data \<Longrightarrow> v = PyNone"
  by (auto split: sum.splits)

lemma NVSEntry_init_bind:
  assumes "NVSEntry_init d st w = (Inr e, w')" and "st \<noteq> Empty"
  shows "w' = w\<lparr>namespaces := ns_bind (namespaces w) e\<rparr>"
    and "e_dataType e = string_t \<or> e_dataType e = blob_data \<Longrightarrow> e_value e = PyNone"
proof -
  from assms obtain h dt k sz v c where
    pd: "parse_data dt (slice d 24 32) = Inr (sz, v, c)"
    and e: "e = \<lparr>e_ns = unat (h ! 0), e_dataType = dt, e_span = unat (h ! 2),
                             e_chunkIndex = unat (h ! 3), e_crc = le_uint (slice h 4 8),
                             e_dataCrc = c, e_size = sz, e_key = k, e_value = v,
                             e_state = st\<rparr>"
    and w': "w' = (if unat (h ! 0) = 0 then w\<lparr>namespaces := (namespaces w)(v \<mapsto> k)\<rparr> else w)"
    by (auto simp: NVSEntry_init_def Let_def split: sum.splits if_splits prod.splits)
  have v: "dt = string_t \<or> dt = blob_data \<Longrightarrow> v = PyNone"
    using parse_data_value[OF pd] .
  show "e_dataType e = string_t \<or> e_dataType e = blob_data \<Longrightarrow> e_value e = PyNone"
    using v by (simp add: e)
  have nk: "ns_key e = v" using v by (auto simp: ns_key_def e)
  show "w' = w\<lparr>namespaces := ns_bind (namespaces w) e\<rparr>"
    unfolding w' ns_bind_def nk by (simp add: e)
qed

lemma read_slot_bind:
  assumes "read_slot pd a st w = (Inr e, w')" and "st \<noteq> Empty"
  shows "w' = w\<lparr>namespaces := ns_bind (namespaces w) e\<rparr>"
  using assms(1)
proof (cases rule: read_slot_cases)
  case (raise x)
  then show ?thesis by simp
next
  case (str e0)
  note b = NVSEntry_init_bind[OF str(1) assms(2)]
  from str(3) obtain t where e: "e = e0\<lparr>e_value := PyStr t\<rparr>"
    by (auto simp: readStrValue_def split: sum.splits if_splits)
  have "ns_bind (namespaces w) e = ns_bind (namespaces w) e0"
    using str(2) by (simp add: ns_bind_def ns_key_def e)
  with b(1) show ?thesis by simp
next
  case (blob e0)
  note b = NVSEntry_init_bind[OF blob(1) assms(2)]
  from blob(3) obtain t where e: "e = e0\<lparr>e_value := PyStr t\<rparr>"
    by (auto simp: readBlobValue_def split: sum.splits if_splits)
  have "ns_bind (namespaces w) e = ns_bind (namespaces w) e0"
    using blob(2) by (simp add: ns_bind_def ns_key_def e)
  with b(1) show ?thesis by simp
next
  case (other e0)
  with NVSEntry_init_bind(1)[OF other(1) assms(2)] show ?thesis by simp
qed


lemma world_namespaces_id: "w\<lparr>namespaces := namespaces w\<rparr> = w"
  by simp

lemma read_entries_bind:
  assumes "read_entries pd es n ents w = Some (Inr out, w')"
  shows "\<exists>new. out = ents @ new \<and> w' = w\<lparr>namespaces := foldl ns_bind (namespaces w) new\<rparr>"
  using assms
proof (induction "NUM_ENTRIES - n" arbitrary: n ents w rule: less_induct)
  case less
  show ?case
  proof (cases "n < NUM_ENTRIES")
    case False
    with less.prems have "out = ents @ [] \<and> w' = w\<lparr>namespaces := foldl ns_bind (namespaces w) []\<rparr>"
      by (simp add: read_entries_done)
    then show ?thesis by (intro exI)
  next
    case n: True
    show ?thesis
    proof (cases "es ! n = Empty")
      case True
      have m: "NUM_ENTRIES - (n + 1) < NUM_ENTRIES - n" using n by simp
      from less.prems have "read_entries pd es (n + 1) ents w = Some (Inr out, w')"
        by (simp add: read_entries_skip[OF n True])
      from less.hyps[OF m this] show ?thesis .
    next
      case st: False
      obtain r w1 where slot: "read_slot pd ((n + 2) * ENTRY_SIZE) (es ! n) w = (r, w1)"
        by (cases "read_slot pd ((n + 2) * ENTRY_SIZE) (es ! n) w")
      show ?thesis
      proof (cases r)
        case (Inl x)
        with less.prems read_entries_raise[OF n st slot[unfolded Inl]] show ?thesis by simp
      next
        case (Inr e)
        have sp: "e_span e \<noteq> 0"
        proof
          assume "e_span e = 0"
          from read_entries_stall[OF n st slot[unfolded Inr] this] less.prems
          show False by simp
        qed
        then have m: "NUM_ENTRIES - (n + e_span e) < NUM_ENTRIES - n" using n by simp
        from less.prems
        have "read_entries pd es (n + e_span e) (ents @ [e]) w1 = Some (Inr out, w')"
          by (simp add: read_entries_entry[OF n st slot[unfolded Inr]])
        from less.hyps[OF m this] obtain new where
          o: "out = (ents @ [e]) @ new"
          and w': "w' = w1\<lparr>namespaces := foldl ns_bind (namespaces w1) new\<rparr>" by blast
        from read_slot_bind[OF slot[unfolded Inr] st]
        have w1: "w1 = w\<lparr>namespaces := ns_bind (namespaces w) e\<rparr>" .
        have "out = ents @ (e # new) \<and>
              w' = w\<lparr>namespaces := foldl ns_bind (namespaces w) (e # new)\<rparr>"
          unfolding o w' w1 by simp
        then show ?thesis by (intro exI)
      qed
    qed
  qed
qed

lemma NVSPage_init_bind:
  assumes "NVSPage_init pd w = Some (Inr page, w')"
  shows "w' = w\<lparr>namespaces := foldl ns_bind (namespaces w) (p_entries page)\<rparr>"
proof -
  have bm: "unpack_check 32 (slice pd 32 64) = Inr b \<Longrightarrow> b = slice pd 32 64" for b
    by (auto simp: unpack_check_def split: if_splits)
  from assms consider (empty) "p_entries page = []" "w' = w"
    | (walk) "read_entries pd (unpack_states (slice pd 32 64)) 0 [] w = Some (Inr (p_entries page), w')"
    by (auto simp: NVSPage_init_def Let_def split: sum.splits if_splits option.splits dest!: bm)
  then show ?thesis
  proof cases
    case empty
    then show ?thesis by simp
  next
    case walk
    from read_entries_bind[OF walk] show ?thesis by simp
  qed
qed

lemma parse_pages_bind:
  assumes "parse_pages img addrs acc w = Some (Inr pages, w')"
  shows "\<exists>new. pages = acc @ new
           \<and> w' = w\<lparr>namespaces := foldl ns_bind (namespaces w) (concat (map p_entries new))\<rparr>"
  using assms
proof (induction addrs arbitrary: acc w)
  case Nil
  then have "pages = acc @ [] \<and>
     w' = w\<lparr>namespaces := foldl ns_bind (namespaces w) (concat (map p_entries []))\<rparr>" by simp
  then show ?case by (intro exI)
next
  case (Cons a addrs)
  from Cons.prems obtain page w1 where
    p: "NVSPage_init (slice img a (a + PAGE_SIZE)) w = Some (Inr page, w1)"
    and rest: "parse_pages img addrs
            (if p_state page = Active \<or> p_state page = Full then acc @ [page] else acc) w1
          = Some (Inr pages, w')"
    by (auto split: option.splits sum.splits prod.splits)
  from NVSPage_init_bind[OF p]
  have w1: "w1 = w\<lparr>namespaces := foldl ns_bind (namespaces w) (p_entries page)\<rparr>" .
  show ?case
  proof (cases "p_state page = Active \<or> p_state page = Full")
    case True
    with rest have "parse_pages img addrs (acc @ [page]) w1 = Some (Inr pages, w')" by simp
    from Cons.IH[OF this] obtain new where
      o: "pages = (acc @ [page]) @ new"
      and w': "w' = w1\<lparr>namespaces := foldl ns_bind (namespaces w1) (concat (map p_entries new))\<rparr>"
      by blast
    have "pages = acc @ (page # new) \<and>
          w' = w\<lparr>namespaces := foldl ns_bind (namespaces w) (concat (map p_entries (page # new)))\<rparr>"
      unfolding o w' w1 by simp
    then show ?thesis by (intro exI)
  next
    case False
    from p False have "p_entries page = []"
      by (auto simp: NVSPage_init_def Let_def split: sum.splits if_splits option.splits)
    with w1 have ww: "w1 = w" by simp
    from False rest have "parse_pages img addrs acc w = Some (Inr pages, w')" by (simp add: ww)
    from Cons.IH[OF this] show ?thesis .
  qed
qed

lemma foldl_ns_bind_None:
  "(foldl ns_bind m es k = None) = (m k = None \<and> (\<forall>d\<in>set es. e_ns d = 0 \<longrightarrow> ns_key d \<noteq> k))"
  by (induction es arbitrary: m) (auto simp: ns_bind_def)

lemma selected_str_cases:
  assumes "selected pW pE e"
  shows "NVSEntry_str w e =
     (case namespaces w (PyInt (int (e_ns e))) of
        None \<Rightarrow> Inl KeyError
      | Some name \<Rightarrow>
          Inr ((if e_state e = Written then ''Written'' else ''Erased'') @ '','' @
               NVSDataType_name (e_dataType e) @ '','' @ str_nat (e_size e) @ '','' @
               name @ '','' @ e_key e @ '','' @ str_value (e_value e)))"
  using assms
  by (auto simp: selected_def NVSEntry_str_def NVSEntryState_name_def Written_def Erased_def
      split: option.split)

text \<open>
  C3, amended. The scan renders every line with the namespace table as it is after all
  pages have been decoded: the table it started with, updated by the binding of every
  decoded entry of namespace 0, in decoding order. So a namespace id is unbound at
  rendering exactly when it was unbound before the scan and no decoded entry anywhere in
  the partition binds it. For an entry that passes the filter, \<open>__str__\<close> then raises
  \<open>KeyError\<close> when the id is unbound (there is no placeholder) and gives the line with the
  bound name otherwise.
\<close>

theorem C3_names_from_final_table:
  assumes "parse_pages imageData (page_addrs (length imageData)) [] w = Some (Inr pages, w')"
  shows "extractNVSEntries imageData printWritten printErased w =
           Some ((csv_header #
                  map (csv_line w')
                    (takeWhile (renders w')
                       (filter (selected printWritten printErased)
                          (concat (map p_entries (sort_key p_seqNum pages))))),
                  if list_all (renders w')
                       (filter (selected printWritten printErased)
                          (concat (map p_entries (sort_key p_seqNum pages))))
                  then None else Some KeyError), w')
       \<and> namespaces w' = foldl ns_bind (namespaces w) (concat (map p_entries pages))
       \<and> (namespaces w' k = None) =
           (namespaces w k = None
            \<and> (\<forall>d\<in>set (concat (map p_entries pages)). e_ns d = 0 \<longrightarrow> ns_key d \<noteq> k))
       \<and> (selected printWritten printErased e \<longrightarrow>
            NVSEntry_str w' e =
              (case namespaces w' (PyInt (int (e_ns e))) of
                 None \<Rightarrow> Inl KeyError
               | Some name \<Rightarrow>
                   Inr ((if e_state e = Written then ''Written'' else ''Erased'') @ '','' @
                        NVSDataType_name (e_dataType e) @ '','' @ str_nat (e_size e) @ '','' @
                        name @ '','' @ e_key e @ '','' @ str_value (e_value e))))"
proof -
  have a: "extractNVSEntries imageData printWritten printErased w =
           Some ((csv_header #
                  map (csv_line w')
                    (takeWhile (renders w')
                       (filter (selected printWritten printErased)
                          (concat (map p_entries (sort_key p_seqNum pages))))),
                  if list_all (renders w')
                       (filter (selected printWritten printErased)
                          (concat (map p_entries (sort_key p_seqNum pages))))
                  then None else Some KeyError), w')"
    using assms by (simp add: extractNVSEntries_def write_pages_concat write_entries_lines)
  from parse_pages_bind[OF assms]
  have b: "namespaces w' = foldl ns_bind (namespaces w) (concat (map p_entries pages))"
    by auto
  have c: "(namespaces w' k = None) =
           (namespaces w k = None
            \<and> (\<forall>d\<in>set (concat (map p_entries pages)). e_ns d = 0 \<longrightarrow> ns_key d \<noteq> k))"
    unfolding b by (rule foldl_ns_bind_None)
  have d: "selected printWritten printErased e \<longrightarrow>
            NVSEntry_str w' e =
              (case namespaces w' (PyInt (int (e_ns e))) of
                 None \<Rightarrow> Inl KeyError
               | Some name \<Rightarrow>
                   Inr ((if e_state e = Written then ''Written'' else ''Erased'') @ '','' @
                        NVSDataType_name (e_dataType e) @ '','' @ str_nat (e_size e) @ '','' @
                        name @ '','' @ e_key e @ '','' @ str_value (e_value e)))"
    using selected_str_cases by blast
  from a b c d show ?thesis by (intro conjI)
qed

theorem C3_names_from_final_table_witness:
  "parse_pages (page_k2 @ page_wifi5) (page_addrs (length (page_k2 @ page_wifi5))) [] world0 =
     Some (Inr [\<lparr>p_state = Active, p_seqNum = 2, p_version = 254, p_crc = 0, p_entries = [dec_k7]\<rparr>,
                \<lparr>p_state = Active, p_seqNum = 5, p_version = 254, p_crc = 0, p_entries = [dec_wifi]\<rparr>],
           ns_add [PyInt 1 \<mapsto> ''wifi''] world0)
   \<and> extractNVSEntries (page_k2 @ page_wifi5) True False world0 =
       Some (([csv_header, ''Written,uint8_t,1,wifi,k,7'' @ [CHR 0x0A],
               ''Written,uint8_t,1,Namespace,wifi,1'' @ [CHR 0x0A]], None),
             ns_add [PyInt 1 \<mapsto> ''wifi''] world0)
   \<and> namespaces (ns_add [PyInt 1 \<mapsto> ''wifi''] world0)
        = foldl ns_bind (namespaces world0) [dec_k7, dec_wifi]
   \<and> namespaces world0 (PyInt 1) = None
   \<and> e_ns dec_wifi = 0 \<and> ns_key dec_wifi = PyInt 1
   \<and> namespaces (ns_add [PyInt 1 \<mapsto> ''wifi''] world0) (PyInt 1) \<noteq> None
   \<and> selected True False dec_k7
   \<and> NVSEntry_str (ns_add [PyInt 1 \<mapsto> ''wifi''] world0) dec_k7 = Inr ''Written,uint8_t,1,wifi,k,7''"
proof -
  note t = C3_names_from_final_table [OF parse_2_5 [of world0], of True False "PyInt 1" dec_k7]
  have sel: "selected True False dec_k7" "selected True False dec_wifi"
    by (simp_all add: selected_def dec_k7_def dec_wifi_def Written_def)
  have ren: "renders (ns_add [PyInt 1 \<mapsto> ''wifi''] world0) dec_k7"
    "renders (ns_add [PyInt 1 \<mapsto> ''wifi''] world0) dec_wifi"
    by (simp_all add: renders_def str_k7 str_wifi)
  have lin: "csv_line (ns_add [PyInt 1 \<mapsto> ''wifi''] world0) dec_k7
               = ''Written,uint8_t,1,wifi,k,7'' @ [CHR 0x0A]"
    "csv_line (ns_add [PyInt 1 \<mapsto> ''wifi''] world0) dec_wifi
               = ''Written,uint8_t,1,Namespace,wifi,1'' @ [CHR 0x0A]"
    by (simp_all add: csv_line_def str_k7 str_wifi)
  have srt: "concat (map p_entries (sort_key p_seqNum
      [\<lparr>p_state = Active, p_seqNum = 2, p_version = 254, p_crc = 0, p_entries = [dec_k7]\<rparr>,
       \<lparr>p_state = Active, p_seqNum = 5, p_version = 254, p_crc = 0, p_entries = [dec_wifi]\<rparr>]))
      = [dec_k7, dec_wifi]"
    by simp
  have cat: "concat (map p_entries
      [\<lparr>p_state = Active, p_seqNum = 2, p_version = 254, p_crc = 0, p_entries = [dec_k7]\<rparr>,
       \<lparr>p_state = Active, p_seqNum = 5, p_version = 254, p_crc = 0, p_entries = [dec_wifi]\<rparr>])
      = [dec_k7, dec_wifi]"
    by simp
  have "extractNVSEntries (page_k2 @ page_wifi5) True False world0 =
       Some ((csv_header #
              map (csv_line (ns_add [PyInt 1 \<mapsto> ''wifi''] world0))
                (takeWhile (renders (ns_add [PyInt 1 \<mapsto> ''wifi''] world0))
                   (filter (selected True False) [dec_k7, dec_wifi])),
              if list_all (renders (ns_add [PyInt 1 \<mapsto> ''wifi''] world0))
                   (filter (selected True False) [dec_k7, dec_wifi])
              then None else Some KeyError),
             ns_add [PyInt 1 \<mapsto> ''wifi''] world0)"
    using t[unfolded srt] by (rule conjunct1)
  then have e: "extractNVSEntries (page_k2 @ page_wifi5) True False world0 =
       Some (([csv_header, ''Written,uint8_t,1,wifi,k,7'' @ [CHR 0x0A],
               ''Written,uint8_t,1,Namespace,wifi,1'' @ [CHR 0x0A]], None),
             ns_add [PyInt 1 \<mapsto> ''wifi''] world0)"
    by (simp add: sel ren lin)
  have b: "namespaces (ns_add [PyInt 1 \<mapsto> ''wifi''] world0)
        = foldl ns_bind (namespaces world0) [dec_k7, dec_wifi]"
    using t[unfolded cat, THEN conjunct2, THEN conjunct1] .
  have n0: "namespaces world0 (PyInt 1) = None" by (simp add: world0_def)
  have d: "e_ns dec_wifi = 0" "ns_key dec_wifi = PyInt 1"
    by (simp_all add: dec_wifi_def ns_key_def)
  have iff: "(namespaces (ns_add [PyInt 1 \<mapsto> ''wifi''] world0) (PyInt 1) = None) =
           (namespaces world0 (PyInt 1) = None
            \<and> (\<forall>d\<in>set [dec_k7, dec_wifi]. e_ns d = 0 \<longrightarrow> ns_key d \<noteq> PyInt 1))"
    using t[unfolded cat, THEN conjunct2, THEN conjunct2, THEN conjunct1] .
  have nn: "namespaces (ns_add [PyInt 1 \<mapsto> ''wifi''] world0) (PyInt 1) \<noteq> None"
    unfolding iff using d by simp
  have nv: "namespaces (ns_add [PyInt 1 \<mapsto> ''wifi''] world0) (PyInt (int (e_ns dec_k7))) = Some ''wifi''"
    by (simp add: dec_k7_def)
  have f: "(if e_state dec_k7 = Written then ''Written'' else ''Erased'') @ '','' @
                   NVSDataType_name (e_dataType dec_k7) @ '','' @ str_nat (e_size dec_k7) @ '','' @
                   ''wifi'' @ '','' @ e_key dec_k7 @ '','' @ str_value (e_value dec_k7)
           = ''Written,uint8_t,1,wifi,k,7''"
    by (simp add: dec_k7_def Written_def hexdigit_def str_int_def)
  have "NVSEntry_str (ns_add [PyInt 1 \<mapsto> ''wifi''] world0) dec_k7 =
              (case namespaces (ns_add [PyInt 1 \<mapsto> ''wifi''] world0) (PyInt (int (e_ns dec_k7))) of
                 None \<Rightarrow> Inl KeyError
               | Some name \<Rightarrow>
                   Inr ((if e_state dec_k7 = Written then ''Written'' else ''Erased'') @ '','' @
                        NVSDataType_name (e_dataType dec_k7) @ '','' @ str_nat (e_size dec_k7) @ '','' @
                        name @ '','' @ e_key dec_k7 @ '','' @ str_value (e_value dec_k7)))"
    using t[THEN conjunct2, THEN conjunct2, THEN conjunct2] sel(1) by (rule mp)
  then have s: "NVSEntry_str (ns_add [PyInt 1 \<mapsto> ''wifi''] world0) dec_k7 = Inr ''Written,uint8_t,1,wifi,k,7''"
    unfolding nv option.case f .
  from parse_2_5 [of world0] e b n0 d nn sel(1) s show ?thesis by (intro conjI)
qed


lemma utf8_valid_ascii: "list_all (\<lambda>b. unat b < 128) bs \<Longrightarrow> utf8_valid bs"
  by (induction bs) simp_all

lemma set_rstrip0: "set (rstrip0 bs) \<subseteq> set bs"
proof -
  have "set (dropWhile (\<lambda>b. b = 0) (rev bs)) \<subseteq> set (rev bs)"
    by (auto dest: set_dropWhileD)
  then show ?thesis by (simp add: rstrip0_def)
qed

lemma utf8_valid_Cons:
  assumes "utf8_valid (b0 # bs)"
  shows "unat b0 < 245 \<and> (\<exists>cs r. bs = cs @ r \<and> (\<forall>x\<in>set cs. unat x < 245) \<and> utf8_valid r)"
proof -
  let ?c = "unat b0"
  let ?Q = "\<lambda>cs r. bs = cs @ r \<and> (\<forall>x\<in>set cs. unat x < 245) \<and> utf8_valid r"
  consider (a) "?c < 128" | (b) "194 \<le> ?c" "?c \<le> 223" | (c) "224 \<le> ?c" "?c \<le> 239"
    | (d) "240 \<le> ?c" "?c \<le> 244"
    | (e) "128 \<le> ?c" "?c < 194 \<or> 244 < ?c"
    by linarith
  then show ?thesis
  proof cases
    case a
    with assms have "?Q [] bs" by simp
    then have "\<exists>cs r. ?Q cs r" by (intro exI)
    with a show ?thesis by simp
  next
    case b
    with assms obtain b1 r where "bs = b1 # r" "is_cont b1" "utf8_valid r"
      by (cases bs) (simp_all add: Let_def)
    then have "?Q [b1] r" by (simp add: is_cont_def)
    then have "\<exists>cs r. ?Q cs r" by (intro exI)
    with b show ?thesis by simp
  next
    case c
    with assms obtain b1 b2 r where bs: "bs = b1 # b2 # r"
      by (cases bs; cases "tl bs") (simp_all add: Let_def)
    from assms c have "unat b1 \<le> 191 \<and> is_cont b2 \<and> utf8_valid r"
      unfolding bs by (simp add: Let_def is_cont_def split: if_splits)
    then have "?Q [b1, b2] r" by (simp add: is_cont_def bs)
    then have "\<exists>cs r. ?Q cs r" by (intro exI)
    with c show ?thesis by simp
  next
    case d
    with assms obtain b1 b2 b3 r where bs: "bs = b1 # b2 # b3 # r"
      by (cases bs; cases "tl bs"; cases "tl (tl bs)") (simp_all add: Let_def)
    from assms d have "unat b1 \<le> 191 \<and> is_cont b2 \<and> is_cont b3 \<and> utf8_valid r"
      unfolding bs by (simp add: Let_def is_cont_def split: if_splits)
    then have "?Q [b1, b2, b3] r" by (simp add: is_cont_def bs)
    then have "\<exists>cs r. ?Q cs r" by (intro exI)
    with d show ?thesis by simp
  next
    case e
    with assms show ?thesis by (auto simp: Let_def)
  qed
qed

lemma utf8_valid_high: "utf8_valid bs \<Longrightarrow> b \<in> set bs \<Longrightarrow> unat b < 245"
proof (induction bs rule: length_induct)
  case (1 xs)
  show ?case
  proof (cases xs)
    case Nil
    with 1(3) show ?thesis by simp
  next
    case (Cons b0 bs)
    from utf8_valid_Cons[OF 1(2)[unfolded Cons]]
    obtain cs r where b0: "unat b0 < 245" and bs: "bs = cs @ r"
      and cs: "\<forall>x\<in>set cs. unat x < 245" and r: "utf8_valid r" by blast
    have "length r < length xs" by (simp add: Cons bs)
    with 1(1) r have "b \<in> set r \<Longrightarrow> unat b < 245" by blast
    with 1(3) b0 cs show ?thesis by (auto simp: Cons bs)
  qed
qed

text \<open>
  C6, as stated, fails: a string entry of size 2 whose payload is C3 28 (a lead byte
  followed by a byte that is not a continuation) makes \<open>readStrValue\<close> raise
  \<open>UnicodeDecodeError\<close>; no \<open>b'<hex>'\<close> rendering is produced.
\<close>

theorem C6_counterexample:
  "readStrValue dec_str [0xc3, 0x28] = Inl UnicodeDecodeError"
  by (simp add: readStrValue_def dec_str_def unpack_check_def slice_def decode_utf8_def
      rstrip0_def is_cont_def Let_def)

text \<open>
  C6, amended. For a string entry whose payload lies within the data, \<open>readStrValue\<close>
  sets the value to the payload without its trailing zero bytes, read as text, when these
  bytes are well-formed UTF-8, and raises \<open>UnicodeDecodeError\<close> when they are not.
  A payload of bytes below 0x80 is always accepted; a payload that keeps a byte of 0xF5
  or more is always rejected.
\<close>

theorem C6_readStrValue_strict:
  assumes "e_dataType e = string_t" and "e_size e \<le> length data"
  shows "(utf8_valid (rstrip0 (take (e_size e) data)) \<longrightarrow>
            readStrValue e data =
              Inr (e\<lparr>e_value := PyStr (map byte_char (rstrip0 (take (e_size e) data)))\<rparr>))
       \<and> (\<not> utf8_valid (rstrip0 (take (e_size e) data)) \<longrightarrow>
            readStrValue e data = Inl UnicodeDecodeError)
       \<and> (list_all (\<lambda>b. unat b < 128) (take (e_size e) data) \<longrightarrow>
            utf8_valid (rstrip0 (take (e_size e) data)))
       \<and> (list_ex (\<lambda>b. 245 \<le> unat b) (rstrip0 (take (e_size e) data)) \<longrightarrow>
            readStrValue e data = Inl UnicodeDecodeError)"
proof -
  have r: "readStrValue e data =
      (case decode_utf8 (rstrip0 (take (e_size e) data)) of
         Inl x \<Rightarrow> Inl x | Inr s \<Rightarrow> Inr (e\<lparr>e_value := PyStr s\<rparr>))"
    using assms by (simp add: readStrValue_def unpack_check_def slice_def)
  have a: "utf8_valid (rstrip0 (take (e_size e) data))"
    if "list_all (\<lambda>b. unat b < 128) (take (e_size e) data)"
  proof (rule utf8_valid_ascii)
    from that set_rstrip0[of "take (e_size e) data"]
    show "list_all (\<lambda>b. unat b < 128) (rstrip0 (take (e_size e) data))"
      unfolding list_all_iff by blast
  qed
  have h: "\<not> utf8_valid (rstrip0 (take (e_size e) data))"
    if "list_ex (\<lambda>b. 245 \<le> unat b) (rstrip0 (take (e_size e) data))"
  proof
    assume v: "utf8_valid (rstrip0 (take (e_size e) data))"
    from that obtain b where "b \<in> set (rstrip0 (take (e_size e) data))" "245 \<le> unat b"
      unfolding list_ex_iff by blast
    with utf8_valid_high[OF v] show False by fastforce
  qed
  show ?thesis
    using a h by (auto simp: r decode_utf8_def)
qed

theorem C6_readStrValue_strict_witness:
  "e_dataType dec_str = string_t \<and> e_size dec_str \<le> length [0x68, 0x69 :: byte]
   \<and> list_all (\<lambda>b. unat b < 128) (take (e_size dec_str) [0x68, 0x69 :: byte])
   \<and> utf8_valid (rstrip0 (take (e_size dec_str) [0x68, 0x69]))
   \<and> readStrValue dec_str [0x68, 0x69] = Inr (dec_str\<lparr>e_value := PyStr ''hi''\<rparr>)
   \<and> e_size dec_str \<le> length [0x41, 0xf8 :: byte]
   \<and> list_ex (\<lambda>b. 245 \<le> unat b) (rstrip0 (take (e_size dec_str) [0x41, 0xf8 :: byte]))
   \<and> \<not> utf8_valid (rstrip0 (take (e_size dec_str) [0x41, 0xf8]))
   \<and> readStrValue dec_str [0x41, 0xf8] = Inl UnicodeDecodeError"
proof -
  have t: "e_dataType dec_str = string_t" by (simp add: dec_str_def)
  have l1: "e_size dec_str \<le> length [0x68, 0x69 :: byte]"
    and l2: "e_size dec_str \<le> length [0x41, 0xf8 :: byte]"
    by (simp_all add: dec_str_def)
  have a: "list_all (\<lambda>b. unat b < 128) (take (e_size dec_str) [0x68, 0x69 :: byte])"
    by (simp add: dec_str_def)
  have x: "list_ex (\<lambda>b. 245 \<le> unat b) (rstrip0 (take (e_size dec_str) [0x41, 0xf8 :: byte]))"
    by (simp add: dec_str_def rstrip0_def)
  have m: "map byte_char (rstrip0 (take (e_size dec_str) [0x68, 0x69])) = ''hi''"
    by (simp add: dec_str_def rstrip0_def byte_char_def char_of_def bit_iff_odd)
  have nv: "\<not> utf8_valid (rstrip0 (take (e_size dec_str) [0x41, 0xf8]))"
    by (simp add: dec_str_def rstrip0_def)
  note 1 = C6_readStrValue_strict [OF t l1]
  note 2 = C6_readStrValue_strict [OF t l2]
  have v: "utf8_valid (rstrip0 (take (e_size dec_str) [0x68, 0x69]))"
    using 1 a by blast
  have r1: "readStrValue dec_str [0x68, 0x69] = Inr (dec_str\<lparr>e_value := PyStr ''hi''\<rparr>)"
    using 1 v unfolding m by blast
  have r2: "readStrValue dec_str [0x41, 0xf8] = Inl UnicodeDecodeError"
    using 2 x by blast
  from t l1 a v r1 l2 x nv r2 show ?thesis by (intro conjI)
qed


lemma page_state1_init:
  "NVSPage_init page_state1 w =
     Some (Inr \<lparr>p_state = Active, p_seqNum = 5, p_version = 254, p_crc = 0,
                 p_entries = [dec_k7\<lparr>e_span := 2, e_state := 1\<rparr>]\<rparr>, w)"
proof -
  have h: "slice page_state1 0 32 = hdr_active5" and b: "slice page_state1 32 64 = bitmap_1w"
    by (simp_all add: page_state1_def slice_def)
  have s: "unpack_states bitmap_1w ! 0 = 1" by (simp add: states_1w)
  have slot: "read_slot page_state1 64 (Suc 0) w = (Inr (dec_k7\<lparr>e_span := 2, e_state := 1\<rparr>), w)"
    by (simp add: read_slot_def page_state1_def slice_def ENTRY_SIZE_def init_span2 Empty_def)
       (simp add: dec_k7_def)
  have re: "read_entries page_state1 (unpack_states bitmap_1w) 0 [] w =
      Some (Inr [dec_k7\<lparr>e_span := 2, e_state := 1\<rparr>], w)"
    by (subst read_entries_unfold)
       (simp add: NUM_ENTRIES_def ENTRY_SIZE_def Empty_def s slot dec_k7_def skip_1w[unfolded numeral_2_eq_2])
  show ?thesis
    by (simp add: NVSPage_init_active[OF h _ hdr5(1) b] re hdr5)
qed

lemma write_entries_drop_state1:
  "write_entries w pW pE (filter (\<lambda>e. e_state e \<noteq> 1) es) out = write_entries w pW pE es out"
  by (induction es arbitrary: out) (auto simp: Written_def Erased_def split: sum.split)

lemma write_pages_drop_state1:
  "write_pages w pW pE (map (\<lambda>p. p\<lparr>p_entries := filter (\<lambda>e. e_state e \<noteq> 1) (p_entries p)\<rparr>) pages) out
     = write_pages w pW pE pages out"
  by (induction pages arbitrary: out) (simp_all add: write_entries_drop_state1[unfolded One_nat_def])

text \<open>
  C7, as stated, fails: on a page whose bitmap gives slot 0 the state 1 and slot 1 the
  state Written, and whose slot 0 stores span 2, the decoder puts an entry decoded from
  slot 0 on the page's entry list, advances by 2 so that slot 1 is never decoded, and
  logs no warning.
\<close>

theorem C7_counterexample:
  "NVSPage_init page_state1 world0 =
     Some (Inr \<lparr>p_state = Active, p_seqNum = 5, p_version = 254, p_crc = 0,
                 p_entries = [dec_k7\<lparr>e_span := 2, e_state := 1\<rparr>]\<rparr>, world0)
   \<and> warnings world0 = []"
  by (simp add: page_state1_init) (simp add: world0_def)

text \<open>
  C7, amended. A slot whose bitmap state is 1 is decoded like any other non-empty slot:
  its entry, with state 1, is appended to the page's entries, the cursor advances by the
  span the entry stores, and no warning is logged. No such entry reaches the output: the
  output loop writes only entries whose state is Written or Erased, so the writes are
  those of the same pages with the entries of state 1 removed.
\<close>

theorem C7_state1_decoded_not_written:
  "(n < NUM_ENTRIES \<and> es ! n = 1 \<and> read_slot pd ((n + 2) * ENTRY_SIZE) (es ! n) w = (Inr e, w')
      \<longrightarrow> read_entries pd es n ents w = read_entries pd es (n + e_span e) (ents @ [e]) w'
          \<and> e_state e = 1 \<and> warnings w' = warnings w)
   \<and> write_entries w printWritten printErased (filter (\<lambda>e. e_state e \<noteq> 1) entries) out
       = write_entries w printWritten printErased entries out
   \<and> write_pages w printWritten printErased
        (map (\<lambda>p. p\<lparr>p_entries := filter (\<lambda>e. e_state e \<noteq> 1) (p_entries p)\<rparr>) pages) out
       = write_pages w printWritten printErased pages out"
proof (intro conjI impI)
  assume a: "n < NUM_ENTRIES \<and> es ! n = 1 \<and> read_slot pd ((n + 2) * ENTRY_SIZE) (es ! n) w = (Inr e, w')"
  then have n: "n < NUM_ENTRIES"
    and slot: "read_slot pd ((n + 2) * ENTRY_SIZE) (es ! n) w = (Inr e, w')"
    and s1: "es ! n = 1"
    by blast+
  from s1 have ne: "es ! n \<noteq> Empty" by (simp add: Empty_def)
  show "read_entries pd es n ents w = read_entries pd es (n + e_span e) (ents @ [e]) w'"
    by (rule read_entries_entry[OF n ne slot])
  from a show "e_state e = 1" using read_slot_Inr(3) by fastforce
  from a show "warnings w' = warnings w" using read_slot_Inr(4) by blast
next
  show "write_entries w printWritten printErased (filter (\<lambda>e. e_state e \<noteq> 1) entries) out
       = write_entries w printWritten printErased entries out"
    by (rule write_entries_drop_state1)
next
  show "write_pages w printWritten printErased
        (map (\<lambda>p. p\<lparr>p_entries := filter (\<lambda>e. e_state e \<noteq> 1) (p_entries p)\<rparr>) pages) out
       = write_pages w printWritten printErased pages out"
    by (rule write_pages_drop_state1)
qed

theorem C7_state1_decoded_not_written_witness:
  "0 < NUM_ENTRIES \<and> unpack_states bitmap_1w ! 0 = 1
   \<and> read_slot page_state1 ((0 + 2) * ENTRY_SIZE) (unpack_states bitmap_1w ! 0) world0
       = (Inr (dec_k7\<lparr>e_span := 2, e_state := 1\<rparr>), world0)
   \<and> read_entries page_state1 (unpack_states bitmap_1w) 0 [] world0
       = read_entries page_state1 (unpack_states bitmap_1w) (0 + e_span (dec_k7\<lparr>e_span := 2, e_state := 1\<rparr>))
           ([] @ [dec_k7\<lparr>e_span := 2, e_state := 1\<rparr>]) world0
   \<and> write_entries world0 True True [dec_k7\<lparr>e_span := 2, e_state := 1\<rparr>] [csv_header]
       = ([csv_header], None)"
proof -
  have s: "unpack_states bitmap_1w ! 0 = 1" "0 < NUM_ENTRIES"
    by (simp_all add: states_1w NUM_ENTRIES_def)
  have slot: "read_slot page_state1 ((0 + 2) * ENTRY_SIZE) (unpack_states bitmap_1w ! 0) world0
       = (Inr (dec_k7\<lparr>e_span := 2, e_state := 1\<rparr>), world0)"
    by (simp add: s read_slot_def page_state1_def slice_def ENTRY_SIZE_def init_span2 Empty_def)
       (simp add: dec_k7_def)
  note c = C7_state1_decoded_not_written
    [of 0 "unpack_states bitmap_1w" page_state1 world0 "dec_k7\<lparr>e_span := 2, e_state := 1\<rparr>" world0
        "[]" True True "[dec_k7\<lparr>e_span := 2, e_state := 1\<rparr>]" "[csv_header]" "[]"]
  have re: "read_entries page_state1 (unpack_states bitmap_1w) 0 [] world0
       = read_entries page_state1 (unpack_states bitmap_1w) (0 + e_span (dec_k7\<lparr>e_span := 2, e_state := 1\<rparr>))
           ([] @ [dec_k7\<lparr>e_span := 2, e_state := 1\<rparr>]) world0"
    using c s slot by blast
  have "write_entries world0 True True (filter (\<lambda>e. e_state e \<noteq> 1) [dec_k7\<lparr>e_span := 2, e_state := 1\<rparr>]) [csv_header]
       = write_entries world0 True True [dec_k7\<lparr>e_span := 2, e_state := 1\<rparr>] [csv_header]"
    using c by blast
  then have wr: "write_entries world0 True True [dec_k7\<lparr>e_span := 2, e_state := 1\<rparr>] [csv_header]
       = ([csv_header], None)"
    by simp
  from s(2) s(1) slot re wr show ?thesis by (intro conjI)
qed


lemma len_entry_str2 [simp]: "length entry_str2 = 32"
  by (simp add: entry_str2_def)





















lemma NVSEntry_init_crc_ignored:
  assumes c: "length c = 4" and len: "8 \<le> length d"
  shows "NVSEntry_init (take 4 d @ c @ drop 8 d) s w =
           map_prod (map_sum id (e_crc_update (\<lambda>_. le_uint c))) id (NVSEntry_init d s w)"
proof -
  let ?d' = "take 4 d @ c @ drop 8 d"
  have l: "length ?d' = length d" using c len by simp
  have data: "slice ?d' 24 32 = slice d 24 32"
    using slice_patch_after(1)[of c 8 4 d 24 32] c len by simp
  show ?thesis
  proof (cases "24 \<le> length d")
    case False
    then show ?thesis
      using l by (simp add: NVSEntry_init_def unpack_check_def slice_def)
  next
    case True
    define h0 where "h0 = slice d 0 24"
    define h1 where "h1 = slice ?d' 0 24"
    have hl: "length h0 = 24" using True by (simp add: h0_def slice_def)
    have h1: "h1 = take 4 h0 @ c @ drop 8 h0"
      using c True by (simp add: h1_def h0_def slice_def min_def drop_take)
    have hl1: "length h1 = 24" using hl c by (simp add: h1)
    have n: "h1 ! 0 = h0 ! 0" "h1 ! 1 = h0 ! 1" "h1 ! 2 = h0 ! 2" "h1 ! 3 = h0 ! 3"
      using hl by (simp_all add: h1 nth_append)
    have k: "slice h1 8 24 = slice h0 8 24"
      unfolding h1 using slice_patch_after(1)[of c 8 4 h0 8 24] c hl by simp
    have cc: "slice h1 4 8 = c"
      using c hl by (simp add: h1 slice_def)
    have u: "unpack_check 24 h1 = Inr h1" "unpack_check 24 h0 = Inr h0"
      using hl hl1 by (simp_all add: unpack_check_def)
    have "NVSEntry_init ?d' s w =
        (case NVSDataType_of (unat (h0 ! 1)) of
             Inl x \<Rightarrow> (Inl x, w)
           | Inr dt \<Rightarrow>
               (case decode_utf8 (rstrip0 (slice h0 8 24)) of
                  Inl x \<Rightarrow> (Inl x, w)
                | Inr k \<Rightarrow>
                    let e = \<lparr>e_ns = unat (h0 ! 0), e_dataType = dt, e_span = unat (h0 ! 2),
                             e_chunkIndex = unat (h0 ! 3), e_crc = le_uint c,
                             e_dataCrc = 0, e_size = 0, e_key = k, e_value = PyNone,
                             e_state = s\<rparr>
                    in if s \<noteq> Empty then
                         (case parse_data dt (slice d 24 32) of
                            Inl x \<Rightarrow> (Inl x, w)
                          | Inr (sz, v, dcrc) \<Rightarrow>
                              let e' = e\<lparr>e_size := sz, e_value := v, e_dataCrc := dcrc\<rparr>
                              in if e_ns e' = 0
                                 then (Inr e', w\<lparr>namespaces := (namespaces w)(v \<mapsto> k)\<rparr>)
                                 else (Inr e', w))
                       else (Inr e, w)))"
      unfolding NVSEntry_init_def h1_def[symmetric] data u sum.case n k cc
      by (simp only: Let_def)
    also have "\<dots> = map_prod (map_sum id (e_crc_update (\<lambda>_. le_uint c))) id (NVSEntry_init d s w)"
      unfolding NVSEntry_init_def h0_def[symmetric] u sum.case
      by (simp add: Let_def split: sum.split prod.split)
    finally show ?thesis .
  qed
qed

lemma NVSPage_init_warnings:
  "NVSPage_init pd w = Some (r, w') \<Longrightarrow> warnings w' = warnings w"
  using NVSPage_init_shape[of pd] by auto

lemma extract_warnings:
  assumes "extractNVSEntries img pW pE w = Some (out, w1)"
  shows "warnings w1 = warnings w"
proof -
  from parse_pages_shape[of img "page_addrs (length img)"] assms
  obtain m where "w1 = ns_add m w"
    by (auto simp: extractNVSEntries_def split: sum.splits)
  then show ?thesis by simp
qed

lemma crc32_update_steps: "crc32_update c b =
  crc32_step (crc32_step (crc32_step (crc32_step (crc32_step (crc32_step (crc32_step
    (crc32_step (c XOR ucast b))))))))"
  by (simp add: crc32_update_def eval_nat_numeral)

lemma crc32_hdr5: "crc32 (slice hdr_active5 4 28) = 229106467"
  by (simp add: slice_def hdr_active5_def crc32_def crc32_update_steps crc32_step_def)

text \<open>
  C4, as stated, fails: the header of \<open>page_two\<close> stores the CRC32 0 over bytes whose
  CRC32 is 229106467, and the page is decoded with nothing logged.
\<close>

theorem C4_counterexample:
  "le_uint (slice page_two 28 32) \<noteq> crc32 (slice page_two 4 28)
   \<and> NVSPage_init page_two world0 =
       Some (Inr \<lparr>p_state = Active, p_seqNum = 5, p_version = 254, p_crc = 0,
                   p_entries = [dec_wifi, dec_k7]\<rparr>,
             ns_add [PyInt 1 \<mapsto> ''wifi''] world0)
   \<and> warnings (ns_add [PyInt 1 \<mapsto> ''wifi''] world0) = []"
proof -
  have s: "slice page_two 28 32 = slice hdr_active5 28 32"
    "slice page_two 4 28 = slice hdr_active5 4 28"
    by (simp_all add: page_two_def slice_def)
  show ?thesis
    by (simp add: s hdr5 crc32_hdr5 page_two_init) (simp add: world0_def)
qed

text \<open>
  C4, amended. The decoder stores the CRC32 fields of page headers and of entries in the
  \<open>crc\<close> attributes and never compares them with anything: whatever four bytes a page
  header or a slot holds in its CRC field, the decoded page or entry is the same but for
  that attribute, the same exceptions are raised, and neither the page decoder nor the
  scan ever adds to the log of warnings.
\<close>

theorem C4_crc_never_checked:
  "(length c = 4 \<and> 32 \<le> length pageData \<longrightarrow>
      NVSPage_init (take 28 pageData @ c @ drop 32 pageData) w =
        map_option (map_prod (map_sum id (p_crc_update (\<lambda>_. le_uint c))) id)
          (NVSPage_init pageData w))
   \<and> (length c = 4 \<and> 8 \<le> length entryData \<longrightarrow>
        NVSEntry_init (take 4 entryData @ c @ drop 8 entryData) st w =
          map_prod (map_sum id (e_crc_update (\<lambda>_. le_uint c))) id (NVSEntry_init entryData st w))
   \<and> (NVSPage_init pageData w = Some (r, w') \<longrightarrow> warnings w' = warnings w)
   \<and> (extractNVSEntries imageData printWritten printErased w = Some (out, w1) \<longrightarrow>
        warnings w1 = warnings w)"
  using NVSPage_init_crc_ignored[of c pageData w] NVSEntry_init_crc_ignored[of c entryData st w]
    NVSPage_init_warnings[of pageData w r w']
    extract_warnings[of imageData printWritten printErased w out w1]
  by blast

theorem C4_crc_never_checked_witness:
  "length [0x23, 0xe3, 0xa7, 0x0d :: byte] = 4 \<and> 32 \<le> length page_two
   \<and> le_uint [0x23, 0xe3, 0xa7, 0x0d :: byte] = crc32 (slice page_two 4 28)
   \<and> NVSPage_init (take 28 page_two @ [0x23, 0xe3, 0xa7, 0x0d :: byte] @ drop 32 page_two) world0 =
       Some (Inr \<lparr>p_state = Active, p_seqNum = 5, p_version = 254, p_crc = 229106467,
                   p_entries = [dec_wifi, dec_k7]\<rparr>,
             ns_add [PyInt 1 \<mapsto> ''wifi''] world0)
   \<and> 8 \<le> length entry_k7
   \<and> NVSEntry_init (take 4 entry_k7 @ [0x23, 0xe3, 0xa7, 0x0d :: byte] @ drop 8 entry_k7) 2 world0 =
       (Inr (dec_k7\<lparr>e_crc := 229106467\<rparr>), world0)
   \<and> warnings (ns_add [PyInt 1 \<mapsto> ''wifi''] world0) = warnings world0"
proof -
  have c: "length [0x23, 0xe3, 0xa7, 0x0d :: byte] = 4" by simp
  have l: "32 \<le> length page_two" "8 \<le> length entry_k7" by simp_all
  have s: "slice page_two 4 28 = slice hdr_active5 4 28"
    by (simp add: page_two_def slice_def)
  have v: "le_uint [0x23, 0xe3, 0xa7, 0x0d :: byte] = crc32 (slice page_two 4 28)"
    by (simp add: s crc32_hdr5)
  note t = C4_crc_never_checked
    [of "[0x23, 0xe3, 0xa7, 0x0d :: byte]" page_two world0 entry_k7 2
        "Inr \<lparr>p_state = Active, p_seqNum = 5, p_version = 254, p_crc = 0,
               p_entries = [dec_wifi, dec_k7]\<rparr>"
        "ns_add [PyInt 1 \<mapsto> ''wifi''] world0"]
  have 1: "NVSPage_init (take 28 page_two @ [0x23, 0xe3, 0xa7, 0x0d :: byte] @ drop 32 page_two) world0 =
       Some (Inr \<lparr>p_state = Active, p_seqNum = 5, p_version = 254, p_crc = 229106467,
                   p_entries = [dec_wifi, dec_k7]\<rparr>,
             ns_add [PyInt 1 \<mapsto> ''wifi''] world0)"
    using t c l(1) by (simp add: page_two_init)
  have 2: "NVSEntry_init (take 4 entry_k7 @ [0x23, 0xe3, 0xa7, 0x0d :: byte] @ drop 8 entry_k7) 2 world0 =
       (Inr (dec_k7\<lparr>e_crc := 229106467\<rparr>), world0)"
    using t c l(2) by (simp add: init_k7)
  have 3: "warnings (ns_add [PyInt 1 \<mapsto> ''wifi''] world0) = warnings world0"
    using t page_two_init[of world0] by blast
  from c l(1) v 1 l(2) 2 3 show ?thesis by (intro conjI)
qed


lemma slice_slice: "b \<le> k \<Longrightarrow> slice (slice xs 0 k) a b = slice xs a b"
  by (simp add: slice_def drop_take min_def)

lemma NVSPage_init_inactive:
  assumes len: "32 \<le> length pd"
    and st: "le_uint (slice pd 0 4) \<noteq> Active" "le_uint (slice pd 0 4) \<noteq> Full"
  shows "NVSPage_init pd w =
     Some (Inr \<lparr>p_state = le_uint (slice pd 0 4), p_seqNum = le_uint (slice pd 4 8),
                p_version = unat (pd ! 8), p_crc = le_uint (slice pd 28 32), p_entries = []\<rparr>, w)"
proof -
  have u: "unpack_check 32 (slice pd 0 32) = Inr (slice pd 0 32)"
    using len by (simp add: unpack_check_def slice_def)
  have n: "slice pd 0 32 ! 8 = pd ! 8"
    by (simp add: slice_def)
  show ?thesis
    unfolding NVSPage_init_def u sum.case
    using st by (simp add: Let_def slice_slice n)
qed

lemma parse_pages_append:
  "parse_pages img (as @ bs) pages w =
     (case parse_pages img as pages w of
        None \<Rightarrow> None
      | Some (Inl x, w') \<Rightarrow> Some (Inl x, w')
      | Some (Inr ps, w') \<Rightarrow> parse_pages img bs ps w')"
  by (induction as arbitrary: pages w) (auto split: option.split sum.split prod.split)

lemma parse_pages_cong:
  "map (\<lambda>a. slice img a (a + PAGE_SIZE)) as = map (\<lambda>a. slice img' a (a + PAGE_SIZE)) as' \<Longrightarrow>
   parse_pages img as pages w = parse_pages img' as' pages w"
proof (induction as arbitrary: as' pages w)
  case Nil
  then show ?case by simp
next
  case (Cons a as)
  then obtain a' bs where as': "as' = a' # bs" by (cases as') auto
  with Cons.prems have h: "slice img a (a + PAGE_SIZE) = slice img' a' (a' + PAGE_SIZE)"
    and t: "map (\<lambda>a. slice img a (a + PAGE_SIZE)) as = map (\<lambda>a. slice img' a (a + PAGE_SIZE)) bs"
    by simp_all
  show ?case
    unfolding as' parse_pages.simps h
    by (simp add: Cons.IH[OF t] split: option.split sum.split prod.split)
qed

lemma PAGE_SIZE_pos: "0 < PAGE_SIZE"
  by (simp add: PAGE_SIZE_def)

lemma page_addrs_add:
  "page_addrs (k * PAGE_SIZE + m) =
     map (\<lambda>j. j * PAGE_SIZE) [0 ..< k] @ map (\<lambda>j. (j + k) * PAGE_SIZE) [0 ..< (m + PAGE_SIZE - 1) div PAGE_SIZE]"
proof -
  let ?c = "(m + PAGE_SIZE - 1) div PAGE_SIZE"
  have "k * PAGE_SIZE + m + PAGE_SIZE - 1 = k * PAGE_SIZE + (m + PAGE_SIZE - 1)"
    using PAGE_SIZE_pos by linarith
  then have d: "(k * PAGE_SIZE + m + PAGE_SIZE - 1) div PAGE_SIZE = k + ?c"
    using PAGE_SIZE_pos by (simp only: div_mult_self3)
  have "[0 ..< k + ?c] = [0 ..< k] @ [k ..< k + ?c]"
    by (rule upt_add_eq_append) (rule le0)
  also have "[k ..< k + ?c] = map (\<lambda>j. j + k) [0 ..< ?c]"
    by (subst add.commute) (rule map_add_upt[symmetric])
  finally have u: "[0 ..< k + ?c] = [0 ..< k] @ map (\<lambda>j. j + k) [0 ..< ?c]" .
  show ?thesis
    unfolding page_addrs_def d u map_append map_map comp_def ..
qed

lemma slice_append_shift:
  "slice (xs @ ys) (length xs + a) (length xs + a + n) = slice ys a (a + n)"
  by (simp add: slice_def)

lemma slice_append_within:
  "b \<le> length xs \<Longrightarrow> slice (xs @ ys) a b = slice xs a b"
  by (simp add: slice_def)

lemma parse_pages_skip_inactive:
  assumes pg: "length pg = PAGE_SIZE"
    and st: "le_uint (slice pg 0 4) \<noteq> Active" "le_uint (slice pg 0 4) \<noteq> Full"
    and pre: "length pre mod PAGE_SIZE = 0"
  shows "parse_pages (pre @ pg @ post) (page_addrs (length (pre @ pg @ post))) pages w =
         parse_pages (pre @ post) (page_addrs (length (pre @ post))) pages w"
proof -
  let ?P = PAGE_SIZE
  let ?i1 = "pre @ pg @ post" and ?i2 = "pre @ post"
  from pre have "?P dvd length pre" by (simp add: dvd_eq_mod_eq_0)
  then obtain k0 where "length pre = ?P * k0" by (rule dvdE)
  then have k: "length pre = k0 * ?P" by (simp add: mult.commute)
  define k where "k = k0"
  note k = k[folded k_def]
  let ?c = "(length post + ?P - 1) div ?P"
  let ?A = "map (\<lambda>j. j * ?P) [0 ..< k]"
  let ?B1 = "map (\<lambda>j. (j + Suc k) * ?P) [0 ..< ?c]"
  let ?B2 = "map (\<lambda>j. (j + k) * ?P) [0 ..< ?c]"
  have l1: "length ?i1 = Suc k * ?P + length post" by (simp add: k pg)
  have l2: "length ?i2 = k * ?P + length post" by (simp add: k)
  have a1: "page_addrs (length ?i1) = (?A @ [k * ?P]) @ ?B1"
    unfolding l1 page_addrs_add by simp
  have a2: "page_addrs (length ?i2) = ?A @ ?B2"
    unfolding l2 page_addrs_add by simp
  have sA: "map (\<lambda>a. slice ?i1 a (a + ?P)) ?A = map (\<lambda>a. slice ?i2 a (a + ?P)) ?A"
  proof (rule map_cong[OF refl])
    fix a assume "a \<in> set ?A"
    then have "a \<in> (\<lambda>j. j * ?P) ` set [0 ..< k]" by (simp only: set_map)
    then obtain j where "a = j * ?P" "j \<in> set [0 ..< k]" by (rule imageE)
    then have j: "a = j * ?P" "j < k" by simp_all
    from j(2) have "Suc j \<le> k" by simp
    then have "Suc j * ?P \<le> k * ?P" by (rule mult_le_mono1)
    then have "a + ?P \<le> length pre" by (simp add: j k)
    then show "slice ?i1 a (a + ?P) = slice ?i2 a (a + ?P)"
      by (simp add: slice_append_within)
  qed
  have e1: "(j + Suc k) * ?P = length (pre @ pg) + j * ?P" for j
    by (simp add: k pg add_mult_distrib)
  have e2: "(j + k) * ?P = length pre + j * ?P" for j
    by (simp add: k add_mult_distrib)
  have s1: "slice ?i1 ((j + Suc k) * ?P) ((j + Suc k) * ?P + ?P) = slice post (j * ?P) (j * ?P + ?P)" for j
    unfolding e1 using slice_append_shift[of "pre @ pg" post "j * ?P" ?P] by simp
  have s2: "slice ?i2 ((j + k) * ?P) ((j + k) * ?P + ?P) = slice post (j * ?P) (j * ?P + ?P)" for j
    unfolding e2 by (rule slice_append_shift)
  have sB: "map (\<lambda>a. slice ?i1 a (a + ?P)) ?B1 = map (\<lambda>a. slice ?i2 a (a + ?P)) ?B2"
    unfolding map_map comp_def s1 s2 ..
  have "slice ((pre @ pg) @ post) (k * ?P) (k * ?P + ?P) = slice (pre @ pg) (k * ?P) (k * ?P + ?P)"
    by (rule slice_append_within) (simp add: k pg)
  also have "\<dots> = pg"
    by (simp add: slice_def k[symmetric] pg)
  finally have mid: "slice ?i1 (k * ?P) (k * ?P + ?P) = pg" by simp
  have len: "32 \<le> length pg" by (simp add: pg PAGE_SIZE_def)
  have one: "parse_pages ?i1 [k * ?P] ps w' = Some (Inr ps, w')" for ps w'
    unfolding parse_pages.simps mid NVSPage_init_inactive[OF len st]
    using st by simp
  have step1: "parse_pages ?i1 ((?A @ [k * ?P]) @ ?B1) pages w =
        (case parse_pages ?i1 (?A @ [k * ?P]) pages w of
           None \<Rightarrow> None
         | Some (Inl x, w') \<Rightarrow> Some (Inl x, w')
         | Some (Inr ps, w') \<Rightarrow> parse_pages ?i1 ?B1 ps w')"
    by (rule parse_pages_append)
  have step2: "parse_pages ?i1 (?A @ [k * ?P]) pages w =
        (case parse_pages ?i1 ?A pages w of
           None \<Rightarrow> None
         | Some (Inl x, w') \<Rightarrow> Some (Inl x, w')
         | Some (Inr ps, w') \<Rightarrow> Some (Inr ps, w'))"
    unfolding parse_pages_append[of _ ?A] one ..
  have "parse_pages ?i1 ((?A @ [k * ?P]) @ ?B1) pages w =
        (case parse_pages ?i1 ?A pages w of
           None \<Rightarrow> None
         | Some (Inl x, w') \<Rightarrow> Some (Inl x, w')
         | Some (Inr ps, w') \<Rightarrow> parse_pages ?i1 ?B1 ps w')"
  proof (cases "parse_pages ?i1 ?A pages w")
    case None
    then show ?thesis by (simp only: step1 step2 option.case)
  next
    case (Some r)
    obtain res w' where r: "r = (res, w')" by (cases r)
    show ?thesis
      by (cases res) (simp_all only: step1 step2 Some r option.case prod.case sum.case)
  qed
  also have "\<dots> = (case parse_pages ?i2 ?A pages w of
           None \<Rightarrow> None
         | Some (Inl x, w') \<Rightarrow> Some (Inl x, w')
         | Some (Inr ps, w') \<Rightarrow> parse_pages ?i2 ?B2 ps w')"
    unfolding parse_pages_cong[OF sA] parse_pages_cong[OF sB] ..
  also have "\<dots> = parse_pages ?i2 (?A @ ?B2) pages w"
    unfolding parse_pages_append ..
  finally show ?thesis
    unfolding a1 a2 .
qed

lemma extract_skip_inactive:
  assumes "length pg = PAGE_SIZE"
    and "le_uint (slice pg 0 4) \<noteq> Active" "le_uint (slice pg 0 4) \<noteq> Full"
    and "length pre mod PAGE_SIZE = 0"
  shows "extractNVSEntries (pre @ pg @ post) pW pE w = extractNVSEntries (pre @ post) pW pE w"
  unfolding extractNVSEntries_def parse_pages_skip_inactive[OF assms] ..

lemma hdr_empty_state: "le_uint (slice page_junk 0 4) = 0xffffffff"
  "le_uint (slice page_junk 4 8) = 7" "unat (page_junk ! 8) = 254"
  "le_uint (slice page_junk 28 32) = 0"
  by (simp_all add: page_junk_def hdr_empty_def slice_def)

text \<open>
  C8. A page of 4096 bytes whose header state is neither Active nor Full is decoded to
  a page without entries, whatever its bitmap and slots hold, with no exception and no
  change to the world; and a scan of a partition that contains such a page gives what
  the scan of the partition without it gives.
\<close>

theorem C8_inactive_page_contributes_nothing:
  assumes "length pageData = PAGE_SIZE"
    and "le_uint (slice pageData 0 4) \<noteq> Active" and "le_uint (slice pageData 0 4) \<noteq> Full"
  shows "NVSPage_init pageData w =
           Some (Inr \<lparr>p_state = le_uint (slice pageData 0 4),
                      p_seqNum = le_uint (slice pageData 4 8),
                      p_version = unat (pageData ! 8),
                      p_crc = le_uint (slice pageData 28 32), p_entries = []\<rparr>, w)
         \<and> (length pre mod PAGE_SIZE = 0 \<longrightarrow>
              extractNVSEntries (pre @ pageData @ post) printWritten printErased w =
              extractNVSEntries (pre @ post) printWritten printErased w)"
proof -
  have l: "32 \<le> length pageData" using assms(1) by (simp add: PAGE_SIZE_def)
  show ?thesis
  proof (intro conjI impI)
    show "NVSPage_init pageData w =
           Some (Inr \<lparr>p_state = le_uint (slice pageData 0 4),
                      p_seqNum = le_uint (slice pageData 4 8),
                      p_version = unat (pageData ! 8),
                      p_crc = le_uint (slice pageData 28 32), p_entries = []\<rparr>, w)"
      by (rule NVSPage_init_inactive[OF l assms(2,3)])
  next
    assume "length pre mod PAGE_SIZE = 0"
    then show "extractNVSEntries (pre @ pageData @ post) printWritten printErased w =
              extractNVSEntries (pre @ post) printWritten printErased w"
      by (rule extract_skip_inactive[OF assms])
  qed
qed

theorem C8_inactive_page_contributes_nothing_witness:
  "length page_junk = PAGE_SIZE
   \<and> le_uint (slice page_junk 0 4) = 0xffffffff
   \<and> le_uint (slice page_junk 0 4) \<noteq> Active \<and> le_uint (slice page_junk 0 4) \<noteq> Full
   \<and> NVSPage_init page_junk world0 =
       Some (Inr \<lparr>p_state = 0xffffffff, p_seqNum = 7, p_version = 254, p_crc = 0,
                   p_entries = []\<rparr>, world0)
   \<and> length page_wifi5 mod PAGE_SIZE = 0
   \<and> extractNVSEntries (page_wifi5 @ page_junk @ page_k2) True False world0 =
       Some (([csv_header, ''Written,uint8_t,1,wifi,k,7'' @ [CHR 0x0A],
               ''Written,uint8_t,1,Namespace,wifi,1'' @ [CHR 0x0A]], None),
             ns_add [PyInt 1 \<mapsto> ''wifi''] world0)"
proof -
  have l: "length page_junk = PAGE_SIZE" "length page_wifi5 mod PAGE_SIZE = 0"
    by (simp_all add: PAGE_SIZE_def)
  have s: "le_uint (slice page_junk 0 4) \<noteq> Active" "le_uint (slice page_junk 0 4) \<noteq> Full"
    by (simp_all add: hdr_empty_state Active_def Full_def)
  note t = C8_inactive_page_contributes_nothing [OF l(1) s, of world0 page_wifi5 page_k2 True False]
  have 1: "NVSPage_init page_junk world0 =
       Some (Inr \<lparr>p_state = 0xffffffff, p_seqNum = 7, p_version = 254, p_crc = 0,
                   p_entries = []\<rparr>, world0)"
    using t by (simp add: hdr_empty_state)
  have 2: "extractNVSEntries (page_wifi5 @ page_junk @ page_k2) True False world0 =
       Some (([csv_header, ''Written,uint8_t,1,wifi,k,7'' @ [CHR 0x0A],
               ''Written,uint8_t,1,Namespace,wifi,1'' @ [CHR 0x0A]], None),
             ns_add [PyInt 1 \<mapsto> ''wifi''] world0)"
    using t l(2) extract_5_2 by simp
  from l(1) hdr_empty_state(1) s 1 l(2) 2 show ?thesis by (intro conjI)
qed

end
